theory Spec2Isabelle
  imports Complex_Main "HOL-Library.Multiset" "HOL-Library.Sublist" "HOL-Library.AList"
    "HOL-Library.Log_Nat"
begin

section \<open>Data model of \<^verbatim>\<open>src/utils/analyze.ts\<close>\<close>

text \<open>
  The analysis starts from the array \<^verbatim>\<open>files: File[]\<close> that \<^verbatim>\<open>runAnalyze\<close> fills from the
  package list and \<^verbatim>\<open>fs.statSync\<close>. A \<^verbatim>\<open>File\<close> is a relative path and the byte size found
  by \<^verbatim>\<open>stat\<close> (the only field of \<^verbatim>\<open>Stats\<close> that is read). A size is a JavaScript number
  with a non-negative integer value; it is a natural number here, and the additions of the
  source are the rounding addition \<open>js_add\<close> of doubles defined below. Every natural number
  up to \<open>2^53\<close> is such a number; the examples with larger sizes use powers of two and the
  rounded sums, which are doubles.

  A \<^verbatim>\<open>TreeNode\<close> owns a \<^verbatim>\<open>Map<string, TreeNode>\<close>. A JavaScript \<^verbatim>\<open>Map\<close> iterates in the order
  in which its keys were first set, so \<open>children\<close> is an association list in insertion order:
  \<^verbatim>\<open>has\<close>/\<^verbatim>\<open>get\<close> are \<open>map_of\<close>, \<^verbatim>\<open>set\<close> of a fresh key appends, and the in-place mutation
  of a child that is already in the map replaces the value at its key.
\<close>

record File =
  path :: string
  stats_size :: nat

datatype TreeNode =
  TreeNode (name: string) (size_n: nat) (children: "(string \<times> TreeNode) list") (isFile: bool)

text \<open>\<^verbatim>\<open>path.sep\<close> on a POSIX host.\<close>

definition path_sep :: char where
  "path_sep = CHR ''/''"

text \<open>\<^verbatim>\<open>String.prototype.split\<close> with a one-character separator: the pieces between the
  separators, empty pieces included (\<^verbatim>\<open>"".split("/")\<close> is \<^verbatim>\<open>[""]\<close>).\<close>

fun split_sep :: "char \<Rightarrow> string \<Rightarrow> string list" where
  "split_sep c [] = [[]]"
| "split_sep c (x # xs) =
     (if x = c then [] # split_sep c xs
      else (case split_sep c xs of
              [] \<Rightarrow> [[x]]
            | piece # pieces \<Rightarrow> (x # piece) # pieces))"

text \<open>\<^verbatim>\<open>file.path.split(path.sep).filter((p) => p.length > 0)\<close>\<close>

definition parts_of :: "File \<Rightarrow> string list" where
  "parts_of file = filter (\<lambda>p. length p > 0) (split_sep path_sep (path file))"

section \<open>JavaScript numbers\<close>

text \<open>
  Sizes and totals are JavaScript numbers, that is binary64 values. A finite double is
  represented by the rational number it denotes, and an arithmetic operation is the exact
  operation followed by rounding to the nearest binary64 value, ties to even. The byte
  sizes that \<^verbatim>\<open>stat\<close> returns are non-negative integers, and so are their rounded sums, which
  are kept as natural numbers. All finite values that arise lie inside the normal range of
  binary64 (sizes are far below \<open>2^1023\<close>, and a quotient of two sizes is at least \<open>2^-1023\<close>),
  so neither overflow nor subnormal numbers are modelled.

  \<^verbatim>\<open>(node.size / totalSize) * 100\<close> is \<^verbatim>\<open>NaN\<close> for \<open>0 / 0\<close>, \<^verbatim>\<open>Infinity\<close> for a positive size
  over \<open>0\<close>, and otherwise the rounded quotient times \<open>100\<close>, rounded again.
\<close>

datatype jsnum = Num rat | Infinity | NaN

definition pow2 :: "int \<Rightarrow> rat" where
  "pow2 e = (if 0 \<le> e then 2 ^ nat e else 1 / 2 ^ nat (- e))"

definition round_half_even :: "rat \<Rightarrow> int" where
  "round_half_even q =
     (let f = \<lfloor>q\<rfloor>; r = q - of_int f
      in if r < 1 / 2 then f else if 1 / 2 < r then f + 1 else if even f then f else f + 1)"

text \<open>The binary exponent of a positive rational \<open>q\<close>: the \<open>e\<close> with \<open>2^e \<le> q < 2^(e+1)\<close>.\<close>

definition exponent2 :: "rat \<Rightarrow> int" where
  "exponent2 q =
     (if 1 \<le> q then bitlen \<lfloor>q\<rfloor> - 1
      else (let k = bitlen \<lfloor>1 / q\<rfloor> - 1
            in if q = pow2 (- k) then - k else - k - 1))"

text \<open>Rounding to the nearest binary64 value (53 significant bits), ties to even.\<close>

definition binary64 :: "rat \<Rightarrow> rat" where
  "binary64 q =
     (if q = 0 then 0
      else (let u = pow2 (exponent2 \<bar>q\<bar> - 52)
            in sgn q * of_int (round_half_even (\<bar>q\<bar> / u)) * u))"

text \<open>\<^verbatim>\<open>a + b\<close> on two sizes: the sum rounded to binary64. It is exact up to \<open>2^53\<close>.\<close>

definition js_add :: "nat \<Rightarrow> nat \<Rightarrow> nat" where
  "js_add a b = nat \<lfloor>binary64 (of_nat a + of_nat b)\<rfloor>"

definition js_div :: "nat \<Rightarrow> nat \<Rightarrow> jsnum" where
  "js_div a b =
     (if b = 0 then (if a = 0 then NaN else Infinity)
      else Num (binary64 (of_nat a / of_nat b)))"

definition js_times100 :: "jsnum \<Rightarrow> jsnum" where
  "js_times100 x =
     (case x of Num q \<Rightarrow> Num (binary64 (q * 100)) | Infinity \<Rightarrow> Infinity | NaN \<Rightarrow> NaN)"

text \<open>
  \<^verbatim>\<open>Number.prototype.toFixed(1)\<close> of a non-negative value below \<open>10^21\<close>: ``let \<open>n\<close> be an
  integer for which \<open>n / 10 - x\<close> is as close to zero as possible; if there are two such \<open>n\<close>,
  pick the larger'', printed with one digit after the point. \<^verbatim>\<open>NaN\<close> and \<^verbatim>\<open>Infinity\<close> print
  as their names.
\<close>

definition tenths :: "rat \<Rightarrow> int" where
  "tenths q = \<lfloor>q * 10 + 1 / 2\<rfloor>"

definition digit_of :: "nat \<Rightarrow> char" where
  "digit_of d = ''0123456789'' ! d"

function show_nat :: "nat \<Rightarrow> string" where
  "show_nat n = (if n < 10 then [digit_of n] else show_nat (n div 10) @ [digit_of (n mod 10)])"
  by pat_completeness auto
termination
  by (relation "measure id") auto

declare show_nat.simps [simp del]

definition toFixed1 :: "jsnum \<Rightarrow> string" where
  "toFixed1 x =
     (case x of
        NaN \<Rightarrow> ''NaN''
      | Infinity \<Rightarrow> ''Infinity''
      | Num q \<Rightarrow> (let n = nat (tenths q) in show_nat (n div 10) @ ''.'' @ show_nat (n mod 10)))"

text \<open>
  \<^verbatim>\<open>Number(percentage.toFixed(1))\<close>: the number that the printed decimal denotes (the double
  nearest to it, which \<^verbatim>\<open>JSON.stringify\<close> prints as that same decimal).
\<close>

definition Number_toFixed1 :: "jsnum \<Rightarrow> jsnum" where
  "Number_toFixed1 x =
     (case x of Num q \<Rightarrow> Num (of_int (tenths q) / 10) | Infinity \<Rightarrow> Infinity | NaN \<Rightarrow> NaN)"

section \<open>The size tree builder\<close>

text \<open>
  The inner loop of \<^verbatim>\<open>buildTree\<close>, from the node \<^verbatim>\<open>current\<close> over the remaining parts. The
  nodes form a tree with a single owner each, so the in-place updates of the source are
  functional updates along the walked path; \<^verbatim>\<open>node.size += file.stats.size\<close> is an addition
  of doubles. The branch \<^verbatim>\<open>if (!node) continue\<close> is kept: it
  goes on with the next part from the same \<^verbatim>\<open>current\<close>.
\<close>

fun walk :: "nat \<Rightarrow> string list \<Rightarrow> TreeNode \<Rightarrow> TreeNode" where
  "walk sz [] current = current"
| "walk sz (part # rest) current =
     (let isLast = (rest = []);
          kids = (if map_of (children current) part = None
                  then children current @ [(part, TreeNode part 0 [] isLast)]
                  else children current)
      in case map_of kids part of
           None \<Rightarrow> walk sz rest (TreeNode (name current) (size_n current) kids (isFile current))
         | Some node \<Rightarrow>
             (let node' = TreeNode (name node) (if isLast then sz else js_add (size_n node) sz)
                            (children node) (isFile node)
              in TreeNode (name current) (size_n current)
                   (AList.update part (walk sz rest node') kids) (isFile current)))"

text \<open>One iteration of the outer loop: \<^verbatim>\<open>current = root; current.size += file.stats.size\<close>,
  then the walk over the parts.\<close>

definition insertFile :: "TreeNode \<Rightarrow> File \<Rightarrow> TreeNode" where
  "insertFile root_node file =
     walk (stats_size file) (parts_of file)
       (TreeNode (name root_node) (js_add (size_n root_node) (stats_size file)) (children root_node)
          (isFile root_node))"

definition emptyRoot :: TreeNode where
  "emptyRoot = TreeNode [] 0 [] False"

definition buildTree :: "File list \<Rightarrow> TreeNode" where
  "buildTree files = foldl insertFile emptyRoot files"

text \<open>\<^verbatim>\<open>files.reduce((acc, file) => acc + file.stats.size, 0)\<close> in \<^verbatim>\<open>runAnalyze\<close>.\<close>

definition totalSize_of :: "File list \<Rightarrow> nat" where
  "totalSize_of files = foldl (\<lambda>acc file. js_add acc (stats_size file)) 0 files"

section \<open>Sorting the children\<close>

text \<open>
  The comparator that \<^verbatim>\<open>displayTree\<close>, \<^verbatim>\<open>serializeTree\<close> and both branches of \<^verbatim>\<open>runAnalyze\<close>
  pass to \<^verbatim>\<open>Array.prototype.sort\<close> (the same function text in all four places). The sort reads
  only the sign of the result, and the rounded difference of two doubles has the sign of the
  exact difference, which is what is returned here.
\<close>

definition compareNodes :: "TreeNode \<Rightarrow> TreeNode \<Rightarrow> int" where
  "compareNodes a b =
     (if isFile a \<noteq> isFile b then (if isFile a then 1 else - 1)
      else int (size_n b) - int (size_n a))"

text \<open>
  \<^verbatim>\<open>Array.prototype.sort(cmp)\<close> is stable (ECMAScript 2019): an element stays before a
  later one unless the comparator puts it after. For a comparator that is a consistent
  ordering this fixes the result, which the insertion sort below computes.
\<close>

fun insert_by :: "('a \<Rightarrow> 'a \<Rightarrow> int) \<Rightarrow> 'a \<Rightarrow> 'a list \<Rightarrow> 'a list" where
  "insert_by cmp x [] = [x]"
| "insert_by cmp x (y # ys) = (if cmp x y \<le> 0 then x # y # ys else y # insert_by cmp x ys)"

definition array_sort :: "('a \<Rightarrow> 'a \<Rightarrow> int) \<Rightarrow> 'a list \<Rightarrow> 'a list" where
  "array_sort cmp xs = foldr (insert_by cmp) xs []"

text \<open>\<^verbatim>\<open>Array.from(node.children.values()).sort(...)\<close>\<close>

definition sortChildren :: "TreeNode \<Rightarrow> TreeNode list" where
  "sortChildren node = array_sort compareNodes (map snd (children node))"

section \<open>External collaborators\<close>

text \<open>
  \<^verbatim>\<open>displaySize\<close> (from \<^verbatim>\<open>./utils\<close>) and the colour functions of \<^verbatim>\<open>picocolors\<close> are not part of
  the analysed file; they are parameters of the model.
\<close>

record env =
  displaySize :: "int \<Rightarrow> string"
  pc_cyan :: "string \<Rightarrow> string"
  pc_bold :: "string \<Rightarrow> string"
  pc_gray :: "string \<Rightarrow> string"
  pc_red :: "string \<Rightarrow> string"

text \<open>The box-drawing connectors and the cross mark of the messages, as UTF-8 bytes.\<close>

definition corner :: string where
  "corner = [CHR 0xE2, CHR 0x94, CHR 0x94, CHR 0xE2, CHR 0x94, CHR 0x80, CHR 0xE2, CHR 0x94, CHR 0x80]"

definition tee :: string where
  "tee = [CHR 0xE2, CHR 0x94, CHR 0x9C, CHR 0xE2, CHR 0x94, CHR 0x80, CHR 0xE2, CHR 0x94, CHR 0x80]"

definition bar :: string where
  "bar = [CHR 0xE2, CHR 0x94, CHR 0x82]"

definition cross_mark :: string where
  "cross_mark = [CHR 0xE2, CHR 0x9D, CHR 0x8C]"

section \<open>\<^verbatim>\<open>path.join\<close> on a POSIX host\<close>

text \<open>
  \<^verbatim>\<open>path.join\<close> joins its non-empty arguments with \<^verbatim>\<open>/\<close> and normalizes the result:
  empty and \<^verbatim>\<open>.\<close> segments are dropped, a \<^verbatim>\<open>..\<close> segment removes the segment before it (or
  stays, in a relative path with nothing left to remove), a trailing separator is kept, and
  the empty result is \<^verbatim>\<open>.\<close>.
\<close>

fun join_with :: "char \<Rightarrow> string list \<Rightarrow> string" where
  "join_with c [] = []"
| "join_with c [s] = s"
| "join_with c (s # t # ss) = s @ c # join_with c (t # ss)"

fun normalizeSegments :: "bool \<Rightarrow> string list \<Rightarrow> string list \<Rightarrow> string list" where
  "normalizeSegments allowAboveRoot res [] = res"
| "normalizeSegments allowAboveRoot res (seg # segs) =
     (if seg = [] \<or> seg = ''.'' then normalizeSegments allowAboveRoot res segs
      else if seg = ''..'' then
        (if res \<noteq> [] \<and> last res \<noteq> ''..''
         then normalizeSegments allowAboveRoot (butlast res) segs
         else if allowAboveRoot then normalizeSegments allowAboveRoot (res @ [''..'']) segs
         else normalizeSegments allowAboveRoot res segs)
      else normalizeSegments allowAboveRoot (res @ [seg]) segs)"

definition path_normalize :: "string \<Rightarrow> string" where
  "path_normalize p =
     (if p = [] then ''.''
      else (let isAbsolute = (hd p = CHR ''/'');
                trailingSeparator = (last p = CHR ''/'');
                q = join_with (CHR ''/'') (normalizeSegments (\<not> isAbsolute) [] (split_sep (CHR ''/'') p))
            in if q = [] then (if isAbsolute then ''/'' else if trailingSeparator then ''./'' else ''.'')
               else (let q' = (if trailingSeparator then q @ ''/'' else q)
                     in if isAbsolute then CHR ''/'' # q' else q')))"

definition path_join :: "string \<Rightarrow> string \<Rightarrow> string" where
  "path_join a b =
     (if a = [] \<and> b = [] then ''.''
      else if a = [] then path_normalize b
      else if b = [] then path_normalize a
      else path_normalize (a @ CHR ''/'' # b))"

section \<open>Renderer, serializer and the run\<close>

text \<open>The record that \<^verbatim>\<open>serializeTree\<close> returns (\<^verbatim>\<open>size\<close> is the human-readable string).\<close>

datatype JsonTreeNode =
  JsonTreeNode (name_j: string) (path_j: string) (sizeBytes: nat) (size_j: string)
    (percentage: jsnum) (isFile_j: bool) (children_j: "JsonTreeNode list")

text \<open>\<^verbatim>\<open>displayTree\<close>: the lines it prints with \<^verbatim>\<open>console.log\<close>, in order. The test
  \<^verbatim>\<open>if (!child) continue\<close> never fires for an index below the length. Both recursions
  descend into the sorted children; that they terminate is proved below, after the
  definitions.\<close>

function displayTree :: "env \<Rightarrow> TreeNode \<Rightarrow> nat \<Rightarrow> string \<Rightarrow> bool \<Rightarrow> string list" where
  "displayTree e node totalSize prefix_s isLast =
     (let percentage_s = toFixed1 (js_times100 (js_div (size_n node) totalSize));
          connector = (if isLast then corner else tee);
          name_s = (if isFile node then pc_cyan e (name node) else pc_bold e (name node));
          sizeStr = displaySize e (int (size_n node));
          percentageStr = pc_gray e (''('' @ percentage_s @ ''%)'');
          line = prefix_s @ connector @ '' '' @ name_s @ '' '' @ sizeStr @ '' '' @ percentageStr;
          sorted_children = sortChildren node;
          childPrefix = prefix_s @ (if isLast then ''   '' else bar @ ''  '')
      in line # concat (map (\<lambda>(i, child).
                  displayTree e child totalSize childPrefix (i = length sorted_children - 1))
                (enumerate 0 sorted_children)))"
  by pat_completeness auto

function serializeTree :: "env \<Rightarrow> TreeNode \<Rightarrow> nat \<Rightarrow> string \<Rightarrow> JsonTreeNode" where
  "serializeTree e node totalSize parentPath =
     (let percentage_n = (if totalSize = 0 then Num 0
                          else js_times100 (js_div (size_n node) totalSize));
          currentPath = (if parentPath \<noteq> [] then path_join parentPath (name node) else name node);
          sorted_children = sortChildren node
      in JsonTreeNode (name node) currentPath (size_n node) (displaySize e (int (size_n node)))
           (Number_toFixed1 percentage_n) (isFile node)
           (map (\<lambda>child. serializeTree e child totalSize currentPath) sorted_children))"
  by pat_completeness auto

text \<open>
  What the process does is a list of events: the objects and lines given to
  \<^verbatim>\<open>console.log\<close> and \<^verbatim>\<open>console.error\<close> (an object stands for its \<^verbatim>\<open>JSON.stringify\<close> text) and
  the call of \<^verbatim>\<open>process.exit\<close>.
\<close>

record Report =
  totalSizeBytes :: nat
  totalSize :: string
  entries :: "JsonTreeNode list"

record ErrorReport =
  error :: string
  size_e :: nat

datatype event =
    StdoutLine string
  | StdoutJson Report
  | StderrLine string
  | StderrJson ErrorReport
  | ProcessExit nat

text \<open>
  The options after \<^verbatim>\<open>commander\<close>: the ceiling is absent or the integer that
  \<^verbatim>\<open>Number.parseInt\<close> produced (\<^verbatim>\<open>NaN\<close> does not pass \<^verbatim>\<open>z.number()\<close>, so the schema parse
  is the identity on the options modelled here), \<^verbatim>\<open>json\<close> is absent or a boolean.
\<close>

record Options =
  failIfExceedsBytes :: "int option"
  json :: "bool option"

definition truthy :: "bool option \<Rightarrow> bool" where
  "truthy b = (b = Some True)"

text \<open>
  \<^verbatim>\<open>runAnalyze\<close>, from the stat-ed file list on (the package list and the \<^verbatim>\<open>stat\<close> calls are
  the directory state): the report events and the returned total.
\<close>

definition runAnalyze :: "env \<Rightarrow> File list \<Rightarrow> Options \<Rightarrow> event list \<times> nat" where
  "runAnalyze e files options =
     (let totalSize_n = totalSize_of files
      in if truthy (json options)
         then (let root_node = buildTree files;
                   sorted_children = sortChildren root_node
               in ([StdoutJson \<lparr>totalSizeBytes = totalSize_n,
                      totalSize = displaySize e (int totalSize_n),
                      entries = map (\<lambda>child. serializeTree e child totalSize_n []) sorted_children\<rparr>],
                   totalSize_n))
         else (let root_node = buildTree files;
                   sorted_children = sortChildren root_node
               in (StdoutLine (''Total unpacked size: '' @ displaySize e (int totalSize_n))
                   # map StdoutLine (concat (map (\<lambda>(i, child).
                         displayTree e child totalSize_n [] (i = length sorted_children - 1))
                       (enumerate 0 sorted_children))),
                   totalSize_n)))"

definition analyzePackage :: "env \<Rightarrow> File list \<Rightarrow> Options \<Rightarrow> event list" where
  "analyzePackage e files options =
     (let analyzeOptions = \<lparr>failIfExceedsBytes = failIfExceedsBytes options, json = json options\<rparr>;
          (report, totalSize_n) = runAnalyze e files analyzeOptions
      in report @
         (case failIfExceedsBytes options of
            None \<Rightarrow> []
          | Some limit \<Rightarrow>
              if int totalSize_n > limit
              then [if truthy (json options)
                    then StderrJson \<lparr>error = ''Bundle size exceeds limit'', size_e = totalSize_n\<rparr>
                    else StderrLine (pc_red e (cross_mark @ '' Bundle size exceeds '' @ displaySize e limit)),
                    ProcessExit 1]
              else []))"

text \<open>The exit status of the process: that of \<^verbatim>\<open>process.exit\<close> if it is called, and \<open>0\<close>
  when the action returns.\<close>

fun exit_status :: "event list \<Rightarrow> nat" where
  "exit_status [] = 0"
| "exit_status (ProcessExit n # evs) = n"
| "exit_status (ev # evs) = exit_status evs"

section \<open>Predicates used in the properties\<close>

text \<open>The scenario of the specification: four files of a small package.\<close>

definition scenario_files :: "File list" where
  "scenario_files =
     [\<lparr>path = ''dist/index.cjs'', stats_size = 6300\<rparr>,
      \<lparr>path = ''package.json'', stats_size = 1351\<rparr>,
      \<lparr>path = ''LICENSE'', stats_size = 1065\<rparr>,
      \<lparr>path = ''README.md'', stats_size = 511\<rparr>]"

text \<open>
  \<open>dirs_sum_ok\<close>: every directory node of the tree has the sum of its children's sizes as
  its size. \<open>no_path_revisited\<close>: every path of the list has a segment, and the segments of
  a path are not a prefix of (or equal to) the segments of a path earlier in the list, so
  that every path ends at a node that no earlier path has created. \<open>fresh ps t\<close>: walking \<open>ps\<close>
  from \<open>t\<close> ends in a node that does not exist yet.
\<close>

definition kids_total :: "(string \<times> TreeNode) list \<Rightarrow> nat" where
  "kids_total kids = sum_list (map (\<lambda>kv. size_n (snd kv)) kids)"

fun dirs_sum_ok :: "TreeNode \<Rightarrow> bool" where
  "dirs_sum_ok (TreeNode n s kids f) =
     ((f \<or> s = kids_total kids)
      \<and> list_all (\<lambda>(k, c). dirs_sum_ok c) kids)"

fun no_path_revisited :: "string list list \<Rightarrow> bool" where
  "no_path_revisited [] = True"
| "no_path_revisited (p # ps) =
     (p \<noteq> [] \<and> list_all (\<lambda>q. \<not> prefix q p) ps \<and> no_path_revisited ps)"

fun fresh :: "string list \<Rightarrow> TreeNode \<Rightarrow> bool" where
  "fresh [] t = False"
| "fresh (p # rest) t =
     (case map_of (children t) p of
        None \<Rightarrow> True
      | Some node \<Rightarrow> rest \<noteq> [] \<and> fresh rest node)"

definition kids_ok :: "(string \<times> TreeNode) list \<Rightarrow> bool" where
  "kids_ok kids = list_all (\<lambda>(k, c). dirs_sum_ok c) kids"

text \<open>\<open>sizes_le B t\<close>: no node of the tree has a size above \<open>B\<close>.\<close>

fun sizes_le :: "nat \<Rightarrow> TreeNode \<Rightarrow> bool" where
  "sizes_le B (TreeNode n s kids f) = (s \<le> B \<and> list_all (\<lambda>(k, c). sizes_le B c) kids)"

definition kids_le :: "nat \<Rightarrow> (string \<times> TreeNode) list \<Rightarrow> bool" where
  "kids_le B kids = list_all (\<lambda>(k, c). sizes_le B c) kids"

text \<open>
  The order that the comparator induces on siblings: a file never precedes a directory, and
  of two siblings of the same kind the later one is not larger. \<open>same_rank f s\<close> selects the
  siblings of kind \<open>f\<close> and size \<open>s\<close>, which the comparator does not distinguish.
\<close>

definition kind_size_order :: "TreeNode \<Rightarrow> TreeNode \<Rightarrow> bool" where
  "kind_size_order a b = ((isFile a \<longrightarrow> isFile b) \<and> (isFile a = isFile b \<longrightarrow> size_n b \<le> size_n a))"

definition same_rank :: "bool \<Rightarrow> nat \<Rightarrow> TreeNode \<Rightarrow> bool" where
  "same_rank f s n = (isFile n = f \<and> size_n n = s)"

text \<open>
  \<open>display_order\<close>: the nodes of a subtree, each node before its children and the children
  in sorted order. \<open>node_line\<close>: the line that the renderer prints for one node, given the
  prefix and the flag of the last sibling.
\<close>

function display_order :: "TreeNode \<Rightarrow> TreeNode list" where
  "display_order node = node # concat (map display_order (sortChildren node))"
  by pat_completeness auto

definition node_line :: "env \<Rightarrow> nat \<Rightarrow> string \<Rightarrow> bool \<Rightarrow> TreeNode \<Rightarrow> string" where
  "node_line e tot prefix_s isLast node =
     prefix_s @ (if isLast then corner else tee) @ '' ''
       @ (if isFile node then pc_cyan e (name node) else pc_bold e (name node))
       @ '' '' @ displaySize e (int (size_n node)) @ '' ''
       @ pc_gray e (''('' @ toFixed1 (js_times100 (js_div (size_n node) tot)) @ ''%)'')"

text \<open>
  \<open>lookup_path ps t\<close> is the node reached from \<open>t\<close> by following the names \<open>ps\<close> through the
  children maps.
\<close>

fun lookup_path :: "string list \<Rightarrow> TreeNode \<Rightarrow> TreeNode option" where
  "lookup_path [] t = Some t"
| "lookup_path (p # ps) t =
     (case map_of (children t) p of None \<Rightarrow> None | Some c \<Rightarrow> lookup_path ps c)"

text \<open>
  A segment that \<^verbatim>\<open>path.join\<close> leaves alone: not empty, without separator, and neither
  \<^verbatim>\<open>.\<close> nor \<^verbatim>\<open>..\<close>. \<open>clean_names\<close>: the node and all its descendants have such names.
  \<open>paths_ok ancestors r\<close>: in the record \<open>r\<close> and all records below it, the name is not empty
  and \<^verbatim>\<open>path\<close> is the names of the ancestors and the record's own name joined by \<^verbatim>\<open>/\<close>.
\<close>

definition clean_segment :: "string \<Rightarrow> bool" where
  "clean_segment s = (s \<noteq> [] \<and> CHR ''/'' \<notin> set s \<and> s \<noteq> ''.'' \<and> s \<noteq> ''..'')"

fun clean_names :: "TreeNode \<Rightarrow> bool" where
  "clean_names (TreeNode n s kids f) =
     (clean_segment n \<and> list_all (\<lambda>(k, c). clean_names c) kids)"

fun paths_ok :: "string list \<Rightarrow> JsonTreeNode \<Rightarrow> bool" where
  "paths_ok ancestors (JsonTreeNode n p sb s pc f kids) =
     (n \<noteq> [] \<and> p = join_with (CHR ''/'') (ancestors @ [n])
      \<and> list_all (paths_ok (ancestors @ [n])) kids)"

text \<open>An environment for the examples: sizes printed in bytes, no colours.\<close>

definition plain_env :: env where
  "plain_env =
     \<lparr>displaySize = (\<lambda>n. show_nat (nat n) @ '' B''),
      pc_cyan = (\<lambda>s. s), pc_bold = (\<lambda>s. s), pc_gray = (\<lambda>s. s), pc_red = (\<lambda>s. s)\<rparr>"

text \<open>
  \<open>is_stdout\<close>: the event is a write to standard output. \<open>report_entries\<close>: the entries of
  the documents written to standard output. \<open>json_sorted r\<close>: below the record \<open>r\<close>, every list
  of children has no file before a directory and, within a kind, sizes in descending order.
  \<open>no_dot_segments\<close>: no path has a segment \<^verbatim>\<open>.\<close> or \<^verbatim>\<open>..\<close>.
\<close>

fun is_stdout :: "event \<Rightarrow> bool" where
  "is_stdout (StdoutLine l) = True"
| "is_stdout (StdoutJson r) = True"
| "is_stdout ev = False"

definition no_dot_segments :: "File list \<Rightarrow> bool" where
  "no_dot_segments files =
     list_all (\<lambda>f. ''.'' \<notin> set (parts_of f) \<and> ''..'' \<notin> set (parts_of f)) files"

fun report_entries :: "event list \<Rightarrow> JsonTreeNode list" where
  "report_entries [] = []"
| "report_entries (StdoutJson r # evs) = entries r @ report_entries evs"
| "report_entries (ev # evs) = report_entries evs"

definition json_order :: "JsonTreeNode \<Rightarrow> JsonTreeNode \<Rightarrow> bool" where
  "json_order a b =
     ((isFile_j a \<longrightarrow> isFile_j b) \<and> (isFile_j a = isFile_j b \<longrightarrow> sizeBytes b \<le> sizeBytes a))"

fun json_sorted :: "JsonTreeNode \<Rightarrow> bool" where
  "json_sorted (JsonTreeNode n p sb s pc f kids) =
     (sorted_wrt json_order kids \<and> list_all json_sorted kids)"

definition kids_clean :: "(string \<times> TreeNode) list \<Rightarrow> bool" where
  "kids_clean kids = list_all (\<lambda>(k, c). clean_names c) kids"

section \<open>Termination of the renderer and the serializer\<close>

text \<open>Sorting keeps the elements, and every child is smaller than its parent.\<close>

lemma set_insert_by: "set (insert_by cmp x xs) = insert x (set xs)"
  by (induction xs) auto

lemma set_array_sort: "set (array_sort cmp xs) = set xs"
  unfolding array_sort_def by (induction xs) (simp_all add: set_insert_by)

lemma child_size_less: "(k, c) \<in> set kids \<Longrightarrow> size c < Suc (size_list (size_prod (\<lambda>x. 0) size) kids)"
  by (induction kids) auto

lemma sortChildren_size_less: "c \<in> set (sortChildren node) \<Longrightarrow> size c < size node"
  by (cases node) (auto simp: sortChildren_def set_array_sort dest: child_size_less)

termination displayTree
  by (relation "measure (\<lambda>(e, node, totalSize, prefix_s, isLast). size node)")
    (auto simp: in_set_enumerate_eq intro: sortChildren_size_less [OF nth_mem])

termination serializeTree
  by (relation "measure (\<lambda>(e, node, totalSize, parentPath). size node)")
    (auto dest: sortChildren_size_less)

termination display_order
  by (relation "measure size") (auto dest: sortChildren_size_less)

declare displayTree.simps [simp del] serializeTree.simps [simp del] display_order.simps [simp del]

text \<open>The two functions at a node given by its fields.\<close>

lemma displayTree_TreeNode:
  "displayTree e (TreeNode n s kids f) tot prefix_s isLast =
     (prefix_s @ (if isLast then corner else tee) @ '' '' @ (if f then pc_cyan e n else pc_bold e n)
        @ '' '' @ displaySize e (int s) @ '' ''
        @ pc_gray e (''('' @ toFixed1 (js_times100 (js_div s tot)) @ ''%)''))
     # concat (map (\<lambda>(i, child). displayTree e child tot
                      (prefix_s @ (if isLast then ''   '' else bar @ ''  ''))
                      (i = length (sortChildren (TreeNode n s kids f)) - 1))
                (enumerate 0 (sortChildren (TreeNode n s kids f))))"
  by (subst displayTree.simps) (simp add: Let_def)

lemma serializeTree_TreeNode:
  "serializeTree e (TreeNode n s kids f) tot parentPath =
     JsonTreeNode n (if parentPath \<noteq> [] then path_join parentPath n else n) s (displaySize e (int s))
       (Number_toFixed1 (if tot = 0 then Num 0 else js_times100 (js_div s tot))) f
       (map (\<lambda>child. serializeTree e child tot (if parentPath \<noteq> [] then path_join parentPath n else n))
          (sortChildren (TreeNode n s kids f)))"
  by (subst serializeTree.simps) (simp add: Let_def)

section \<open>The rounding model\<close>

text \<open>
  The rounding function agrees with binary64 on familiar values, the exponent it uses is
  the binary exponent of its argument, and the result is a multiple of the unit in the last
  place that lies within half a unit of the argument.
\<close>

lemma binary64_known_values:
  "binary64 (1 / 3) = 6004799503160661 / 18014398509481984"
  "binary64 (1 / 10) = 3602879701896397 / 36028797018963968"
  "binary64 (1 / 2) = 1 / 2"
  "binary64 100 = 100"
  "binary64 9007199254740993 = 9007199254740992"
  by code_simp+

lemma pow2_pos: "0 < pow2 e"
  by (simp add: pow2_def)

lemma pow2_succ: "pow2 (e + 1) = 2 * pow2 e"
proof (cases "0 \<le> e")
  case True
  then show ?thesis by (simp add: pow2_def nat_add_distrib)
next
  case False
  then have "nat (- e) = Suc (nat (- (e + 1)))" by simp
  then show ?thesis using False by (simp add: pow2_def)
qed

lemma int_bitlen_bounds:
  fixes x :: int
  assumes "1 \<le> x"
  shows "(2::rat) ^ nat (bitlen x - 1) \<le> of_int x \<and> of_int x + 1 \<le> (2::rat) ^ nat (bitlen x)"
proof -
  have b: "2 ^ nat (bitlen x - 1) \<le> x \<and> x < 2 ^ nat (bitlen x)"
    using assms by (intro bitlen_bounds) simp
  then have "(of_int (2 ^ nat (bitlen x - 1)) :: rat) \<le> of_int x"
    by (simp only: of_int_le_iff)
  moreover from b have "x + 1 \<le> 2 ^ nat (bitlen x)" by simp
  then have "(of_int (x + 1) :: rat) \<le> of_int (2 ^ nat (bitlen x))"
    by (simp only: of_int_le_iff)
  ultimately show ?thesis by simp
qed

lemma exponent2_bounds:
  assumes "0 < q"
  shows "pow2 (exponent2 q) \<le> q \<and> q < pow2 (exponent2 q + 1)"
proof (cases "1 \<le> q")
  case True
  let ?x = "\<lfloor>q\<rfloor>"
  have x1: "1 \<le> ?x" using True by simp
  then have bl: "1 \<le> bitlen ?x" using compute_bitlen [of ?x] bitlen_nonneg [of "?x div 2"] by simp
  have b: "(2::rat) ^ nat (bitlen ?x - 1) \<le> of_int ?x \<and> of_int ?x + 1 \<le> (2::rat) ^ nat (bitlen ?x)"
    using x1 by (rule int_bitlen_bounds)
  have e: "exponent2 q = bitlen ?x - 1" using True by (simp add: exponent2_def)
  have "pow2 (bitlen ?x - 1) = 2 ^ nat (bitlen ?x - 1)" using bl by (simp add: pow2_def)
  moreover have "pow2 (bitlen ?x - 1 + 1) = 2 ^ nat (bitlen ?x)" using bl by (simp add: pow2_def)
  moreover have "of_int ?x \<le> q" "q < of_int ?x + 1" by linarith+
  ultimately show ?thesis using b unfolding e by linarith
next
  case False
  let ?m = "\<lfloor>1 / q\<rfloor>"
  let ?k = "bitlen ?m - 1"
  have iq: "1 < 1 / q" using False assms by simp
  then have m1: "1 \<le> ?m" by simp
  then have bl: "1 \<le> bitlen ?m" using compute_bitlen [of ?m] bitlen_nonneg [of "?m div 2"] by simp
  have b: "(2::rat) ^ nat ?k \<le> of_int ?m \<and> of_int ?m + 1 \<le> (2::rat) ^ nat (bitlen ?m)"
    using m1 by (rule int_bitlen_bounds)
  have fl: "of_int ?m \<le> 1 / q" "1 / q < of_int ?m + 1" by linarith+
  have k0: "0 \<le> ?k" using bl by simp
  have up: "q \<le> pow2 (- ?k)"
  proof -
    have "(2::rat) ^ nat ?k \<le> 1 / q" using b fl by linarith
    then have "q * 2 ^ nat ?k \<le> 1" using assms by (simp add: field_simps)
    then have "q \<le> 1 / 2 ^ nat ?k" by (simp add: field_simps)
    moreover have "pow2 (- ?k) = 1 / 2 ^ nat ?k" using k0 by (cases "?k = 0") (simp_all add: pow2_def)
    ultimately show ?thesis by simp
  qed
  have lo: "pow2 (- ?k - 1) < q"
  proof -
    have "1 / q < (2::rat) ^ nat (bitlen ?m)" using b fl by linarith
    then have "1 < q * 2 ^ nat (bitlen ?m)" using assms by (simp add: field_simps)
    then have "1 / 2 ^ nat (bitlen ?m) < q" by (simp add: field_simps)
    moreover have "pow2 (- ?k - 1) = 1 / 2 ^ nat (bitlen ?m)" using bl by (simp add: pow2_def)
    ultimately show ?thesis by simp
  qed
  show ?thesis
  proof (cases "q = pow2 (- ?k)")
    case True
    then have e: "exponent2 q = - ?k" using False by (simp add: exponent2_def Let_def)
    have "q < 2 * q" using assms by simp
    then show ?thesis unfolding e pow2_succ using True by simp
  next
    case ne: False
    then have e: "exponent2 q = - ?k - 1" using False by (simp add: exponent2_def Let_def)
    have "pow2 (- ?k - 1 + 1) = pow2 (- ?k)" by simp
    then show ?thesis unfolding e using lo up ne by simp
  qed
qed


lemma round_half_even_error: "\<bar>of_int (round_half_even x) - x\<bar> \<le> 1 / 2"
proof -
  have "of_int \<lfloor>x\<rfloor> \<le> x" "x < of_int \<lfloor>x\<rfloor> + 1" by linarith+
  then show ?thesis by (auto simp: round_half_even_def Let_def)
qed

lemma binary64_error:
  assumes "0 < q"
  shows "\<bar>binary64 q - q\<bar> \<le> pow2 (exponent2 q - 52) / 2"
proof -
  let ?u = "pow2 (exponent2 q - 52)"
  let ?m = "round_half_even (q / ?u)"
  have u: "0 < ?u" by (rule pow2_pos)
  have b: "binary64 q = of_int ?m * ?u"
    using assms by (simp add: binary64_def Let_def)
  have "\<bar>of_int ?m - q / ?u\<bar> \<le> 1 / 2" by (rule round_half_even_error)
  then have "\<bar>of_int ?m - q / ?u\<bar> * ?u \<le> 1 / 2 * ?u"
    using u by (intro mult_right_mono) simp_all
  moreover have "\<bar>of_int ?m - q / ?u\<bar> * ?u = \<bar>of_int ?m * ?u - q\<bar>"
    using u by (simp add: abs_mult_pos [symmetric] field_simps del: abs_mult_pos)
  ultimately show ?thesis by (simp add: b)
qed

text \<open>Integers up to \<open>2^53\<close> are doubles, so sums up to \<open>2^53\<close> are exact.\<close>

lemma round_half_even_of_int: "round_half_even (of_int m) = m"
  by (simp add: round_half_even_def)

lemma pow2_nonpos: "x \<le> 0 \<Longrightarrow> pow2 x = 1 / 2 ^ nat (- x)"
  by (auto simp: pow2_def)

lemma binary64_two_53: "binary64 9007199254740992 = 9007199254740992"
  by code_simp

lemma binary64_of_nat_exact:
  assumes "n \<le> 2 ^ 53"
  shows "binary64 (of_nat n) = of_nat n"
proof (cases "n = 0 \<or> n = 2 ^ 53")
  case True
  then show ?thesis
  proof
    assume "n = 0"
    then show ?thesis by (simp add: binary64_def)
  next
    assume "n = 2 ^ 53"
    then show ?thesis using binary64_two_53 by simp
  qed
next
  case False
  with assms have n: "0 < n" "n < 2 ^ 53" by simp_all
  define q :: rat where "q = of_nat n"
  define e where "e = bitlen (int n) - 1"
  define k where "k = nat (52 - e)"
  have q1: "1 \<le> q" "0 < q" using n(1) by (simp_all add: q_def)
  have fl: "\<lfloor>q\<rfloor> = int n" by (simp add: q_def)
  have e: "exponent2 q = e" using q1 by (simp add: exponent2_def fl e_def)
  have bb: "2 ^ nat e \<le> int n" using bitlen_bounds [of "int n"] n(1) by (simp add: e_def)
  have e52: "e \<le> 52"
  proof (rule ccontr)
    assume "\<not> e \<le> 52"
    then have "53 \<le> nat e" by simp
    then have "(2::int) ^ 53 \<le> 2 ^ nat e" by (intro power_increasing) simp_all
    with bb have "(2::int) ^ 53 \<le> int n" by linarith
    then have "(2::nat) ^ 53 \<le> n" by (metis of_nat_le_iff of_nat_numeral of_nat_power)
    with n(2) show False by simp
  qed
  have u: "pow2 (e - 52) = 1 / 2 ^ k" using e52 by (simp add: pow2_nonpos k_def)
  have "q / pow2 (e - 52) = of_int (int n * 2 ^ k)" unfolding u by (simp add: q_def)
  then have r: "round_half_even (q / pow2 (e - 52)) = int n * 2 ^ k"
    by (simp only: round_half_even_of_int)
  have "binary64 q = sgn q * of_int (int n * 2 ^ k) * pow2 (e - 52)"
  proof -
    have "\<bar>q\<bar> = q" "q \<noteq> 0" using q1(2) by simp_all
    then show ?thesis unfolding binary64_def Let_def by (simp only: e r if_False)
  qed
  also have "\<dots> = q" unfolding u using q1(2) by (simp add: q_def)
  finally show ?thesis by (simp add: q_def)
qed

lemma js_add_exact: "a + b \<le> 2 ^ 53 \<Longrightarrow> js_add a b = a + b"
proof -
  assume "a + b \<le> 2 ^ 53"
  then have "binary64 (of_nat (a + b)) = of_nat (a + b)" by (rule binary64_of_nat_exact)
  then have "binary64 (of_nat a + of_nat b) = of_nat (a + b)" by simp
  then show ?thesis by (simp add: js_add_def del: of_nat_add)
qed

text \<open>Above \<open>2^53\<close> the sum of two sizes is rounded: \<open>2^53 + 1\<close> is not a double.\<close>

lemma js_add_rounds:
  "js_add 9007199254740992 1 = 9007199254740992"
  "js_add 9007199254740992 (Suc 0) = 9007199254740992"
  "js_add 1 9007199254740992 = 9007199254740992"
  "js_add (Suc 0) 9007199254740992 = 9007199254740992"
  "js_add 2 9007199254740992 = 9007199254740994"
proof -
  have a: "binary64 9007199254740993 = 9007199254740992" by code_simp
  then show "js_add 9007199254740992 1 = 9007199254740992" by (simp add: js_add_def)
  from a show "js_add 9007199254740992 (Suc 0) = 9007199254740992" by (simp add: js_add_def)
  from a show "js_add 1 9007199254740992 = 9007199254740992" by (simp add: js_add_def)
  from a show "js_add (Suc 0) 9007199254740992 = 9007199254740992" by (simp add: js_add_def)
  have "binary64 9007199254740994 = 9007199254740994" by code_simp
  then show "js_add 2 9007199254740992 = 9007199254740994" by (simp add: js_add_def)
qed

section \<open>Unfolding the run\<close>

text \<open>The run in terms of its report, and the values of the scenario.\<close>

lemma runAnalyze_total: "snd (runAnalyze e files options) = totalSize_of files"
  by (simp add: runAnalyze_def Let_def)

lemma runAnalyze_ignores_ceiling:
  "runAnalyze e files \<lparr>failIfExceedsBytes = c, json = j\<rparr>
     = runAnalyze e files \<lparr>failIfExceedsBytes = None, json = j\<rparr>"
  by (simp add: runAnalyze_def)

lemma filter_stdout_lines: "filter is_stdout (map StdoutLine ls) = map StdoutLine ls"
  by (induction ls) simp_all

lemma exit_status_lines: "exit_status (map StdoutLine ls @ evs) = exit_status evs"
  by (induction ls) simp_all

lemma runAnalyze_stdout: "filter is_stdout (fst (runAnalyze e files options)) = fst (runAnalyze e files options)"
  by (simp add: runAnalyze_def Let_def filter_stdout_lines)

lemma runAnalyze_no_exit: "exit_status (fst (runAnalyze e files options) @ evs) = exit_status evs"
  by (simp add: runAnalyze_def Let_def exit_status_lines)

lemma analyzePackage_unfold:
  "analyzePackage e files \<lparr>failIfExceedsBytes = c, json = j\<rparr>
     = fst (runAnalyze e files \<lparr>failIfExceedsBytes = None, json = j\<rparr>) @
       (case c of
          None \<Rightarrow> []
        | Some limit \<Rightarrow>
            if int (totalSize_of files) > limit
            then [if truthy j
                  then StderrJson \<lparr>error = ''Bundle size exceeds limit'', size_e = totalSize_of files\<rparr>
                  else StderrLine (pc_red e (cross_mark @ '' Bundle size exceeds '' @ displaySize e limit)),
                  ProcessExit 1]
            else [])"
  by (simp add: analyzePackage_def Let_def split_beta runAnalyze_total
        runAnalyze_ignores_ceiling [of e files c j] split: option.splits)

lemma tenths_0: "tenths 0 = 0"
  by code_simp

lemma js_div_numeral:
  "js_div (numeral a) (numeral b) = Num (binary64 (numeral a / numeral b))"
  by (simp add: js_div_def)

lemma pct_6300: "Number_toFixed1 (js_times100 (Num (binary64 (6300 / 9227)))) = Num (683 / 10)"
  by code_simp

lemma pct_1351: "Number_toFixed1 (js_times100 (Num (binary64 (1351 / 9227)))) = Num (146 / 10)"
  by code_simp

lemma pct_1065: "Number_toFixed1 (js_times100 (Num (binary64 (1065 / 9227)))) = Num (115 / 10)"
  by code_simp

lemma pct_511: "Number_toFixed1 (js_times100 (Num (binary64 (511 / 9227)))) = Num (55 / 10)"
  by code_simp

lemma buildTree_scenario:
  "buildTree scenario_files =
     TreeNode [] 9227
       [(''dist'', TreeNode ''dist'' 6300 [(''index.cjs'', TreeNode ''index.cjs'' 6300 [] True)] False),
        (''package.json'', TreeNode ''package.json'' 1351 [] True),
        (''LICENSE'', TreeNode ''LICENSE'' 1065 [] True),
        (''README.md'', TreeNode ''README.md'' 511 [] True)] False"
  by (simp add: scenario_files_def buildTree_def insertFile_def parts_of_def path_sep_def emptyRoot_def
      js_add_exact)

lemma path_join_dist: "path_join ''dist'' ''index.cjs'' = ''dist/index.cjs''"
  by (simp add: path_join_def path_normalize_def)

section \<open>The root carries the total\<close>

lemma walk_size_n: "size_n (walk sz ps t) = size_n t"
  by (induction ps arbitrary: t) (simp_all add: Let_def split: option.splits)

lemma walk_name: "name (walk sz ps t) = name t"
  by (induction ps arbitrary: t) (simp_all add: Let_def split: option.splits)

lemma walk_isFile: "isFile (walk sz ps t) = isFile t"
  by (induction ps arbitrary: t) (simp_all add: Let_def split: option.splits)

lemma insertFile_size_n: "size_n (insertFile t f) = js_add (size_n t) (stats_size f)"
  by (simp add: insertFile_def walk_size_n)

lemma foldl_insertFile_size_n:
  "size_n (foldl insertFile t fs) = foldl (\<lambda>acc file. js_add acc (stats_size file)) (size_n t) fs"
  by (induction fs arbitrary: t) (simp_all add: insertFile_size_n)

lemma buildTree_size_n: "size_n (buildTree fs) = totalSize_of fs"
  by (simp add: buildTree_def foldl_insertFile_size_n emptyRoot_def totalSize_of_def)

lemma foldl_js_add_exact:
  "a + sum_list (map stats_size fs) \<le> 2 ^ 53 \<Longrightarrow>
   foldl (\<lambda>acc file. js_add acc (stats_size file)) a fs = a + sum_list (map stats_size fs)"
proof (induction fs arbitrary: a)
  case Nil
  then show ?case by simp
next
  case (Cons f fs)
  then have "js_add a (stats_size f) = a + stats_size f"
    using js_add_exact [of a "stats_size f"] by simp
  moreover have "a + stats_size f + sum_list (map stats_size fs) \<le> 2 ^ 53"
    using Cons.prems by simp
  ultimately show ?case using Cons.IH [of "a + stats_size f"] by simp
qed

lemma totalSize_of_sum:
  "sum_list (map stats_size fs) \<le> 2 ^ 53 \<Longrightarrow> totalSize_of fs = sum_list (map stats_size fs)"
  using foldl_js_add_exact [of 0 fs] by (simp add: totalSize_of_def)

lemma sum_list_sizes_mset:
  "mset fs' = mset fs \<Longrightarrow> sum_list (map stats_size fs') = sum_list (map stats_size fs)"
proof -
  assume "mset fs' = mset fs"
  then have "mset (map stats_size fs') = mset (map stats_size fs)" by (metis mset_map)
  then show ?thesis by (metis sum_mset_sum_list)
qed

text \<open>
  Claim C2, as amended. For every file list the size of the root that \<^verbatim>\<open>buildTree\<close> returns
  is the total that the fold in \<^verbatim>\<open>runAnalyze\<close> computes and returns. When the sum of all
  byte sizes is at most \<open>2^53\<close>, so that every addition of doubles is exact, that size is the
  sum of all byte sizes, and it is the same for every permutation of the list.
\<close>

theorem root_size_is_total:
  "size_n (buildTree files) = totalSize_of files
   \<and> snd (runAnalyze e files options) = totalSize_of files
   \<and> (sum_list (map stats_size files) \<le> 2 ^ 53 \<longrightarrow>
        size_n (buildTree files) = sum_list (map stats_size files)
        \<and> (mset files' = mset files \<longrightarrow> size_n (buildTree files') = size_n (buildTree files)))"
proof -
  have "size_n (buildTree files') = size_n (buildTree files)"
    if b: "sum_list (map stats_size files) \<le> 2 ^ 53" and m: "mset files' = mset files"
  proof -
    have "sum_list (map stats_size files') = sum_list (map stats_size files)"
      using m by (rule sum_list_sizes_mset)
    then show ?thesis using b by (simp add: buildTree_size_n totalSize_of_sum)
  qed
  then show ?thesis
    by (simp add: buildTree_size_n totalSize_of_sum runAnalyze_def Let_def)
qed

theorem root_size_is_total_witness:
  "sum_list (map stats_size [\<lparr>path = ''a'', stats_size = 2\<rparr>, \<lparr>path = ''b/c'', stats_size = 5\<rparr>]) \<le> 2 ^ 53
   \<and> mset [\<lparr>path = ''b/c'', stats_size = 5\<rparr>, \<lparr>path = ''a'', stats_size = 2\<rparr>]
     = mset [\<lparr>path = ''a'', stats_size = 2\<rparr>, \<lparr>path = ''b/c'', stats_size = 5\<rparr>]
   \<and> size_n (buildTree [\<lparr>path = ''b/c'', stats_size = 5\<rparr>, \<lparr>path = ''a'', stats_size = 2\<rparr>]) = 7
   \<and> size_n (buildTree [\<lparr>path = ''a'', stats_size = 2\<rparr>, \<lparr>path = ''b/c'', stats_size = 5\<rparr>]) = 7"
  using root_size_is_total [of "[\<lparr>path = ''a'', stats_size = 2\<rparr>, \<lparr>path = ''b/c'', stats_size = 5\<rparr>]"
      undefined undefined "[\<lparr>path = ''b/c'', stats_size = 5\<rparr>, \<lparr>path = ''a'', stats_size = 2\<rparr>]"]
  by simp

text \<open>
  Without the bound the claim fails, because the sizes are added as doubles: with the
  sizes \<open>2^53\<close>, 1, 1 the root has size \<open>2^53\<close> (each 1 is rounded away), with the same files in
  the order 1, 1, \<open>2^53\<close> it has size \<open>2^53 + 2\<close>, which is the sum.
\<close>

theorem root_size_is_total_counterexample:
  "mset [\<lparr>path = ''b'', stats_size = 1\<rparr>, \<lparr>path = ''c'', stats_size = 1\<rparr>,
         \<lparr>path = ''a'', stats_size = 9007199254740992\<rparr>]
     = mset [\<lparr>path = ''a'', stats_size = 9007199254740992\<rparr>, \<lparr>path = ''b'', stats_size = 1\<rparr>,
             \<lparr>path = ''c'', stats_size = 1\<rparr>]
   \<and> size_n (buildTree [\<lparr>path = ''a'', stats_size = 9007199254740992\<rparr>,
         \<lparr>path = ''b'', stats_size = 1\<rparr>, \<lparr>path = ''c'', stats_size = 1\<rparr>]) = 9007199254740992
   \<and> size_n (buildTree [\<lparr>path = ''b'', stats_size = 1\<rparr>, \<lparr>path = ''c'', stats_size = 1\<rparr>,
         \<lparr>path = ''a'', stats_size = 9007199254740992\<rparr>]) = 9007199254740994
   \<and> sum_list (map stats_size [\<lparr>path = ''a'', stats_size = 9007199254740992\<rparr>,
         \<lparr>path = ''b'', stats_size = 1\<rparr>, \<lparr>path = ''c'', stats_size = 1\<rparr>]) = 9007199254740994"
proof -
  have small: "js_add 0 1 = 1" "js_add 1 1 = 2" "js_add 0 9007199254740992 = 9007199254740992"
    by (simp_all add: js_add_exact)
  have "js_add (js_add (js_add 0 1) 1) 9007199254740992 = 9007199254740994"
    by (simp only: small js_add_rounds)
  moreover have "js_add (js_add (js_add 0 9007199254740992) 1) 1 = 9007199254740992"
    by (simp only: small js_add_rounds)
  ultimately show ?thesis
    by (simp add: buildTree_size_n totalSize_of_def)
qed

section \<open>Directories sum their children\<close>

lemma dirs_sum_ok_iff:
  "dirs_sum_ok t = ((isFile t \<or> size_n t = kids_total (children t)) \<and> kids_ok (children t))"
  by (cases t) (simp add: kids_ok_def)

lemma kids_total_append: "kids_total (xs @ ys) = kids_total xs + kids_total ys"
  by (simp add: kids_total_def)

lemma kids_total_update:
  "map_of kvs k = Some old \<Longrightarrow>
   kids_total (AList.update k v kvs) + size_n old = kids_total kvs + size_n v"
  by (induction kvs) (auto simp: kids_total_def)

lemma kids_ok_update:
  "kids_ok kvs \<Longrightarrow> dirs_sum_ok v \<Longrightarrow> kids_ok (AList.update k v kvs)"
  by (induction kvs) (auto simp: kids_ok_def)

lemma kids_ok_map_of: "kids_ok kvs \<Longrightarrow> map_of kvs k = Some c \<Longrightarrow> dirs_sum_ok c"
  by (induction kvs) (auto simp: kids_ok_def split: if_splits)

lemma sizes_le_iff: "sizes_le B t = (size_n t \<le> B \<and> kids_le B (children t))"
  by (cases t) (simp add: kids_le_def)

lemma sizes_le_mono: "sizes_le B t \<Longrightarrow> B \<le> B' \<Longrightarrow> sizes_le B' t"
  by (induction B t rule: sizes_le.induct) (auto simp: list_all_iff)

lemma kids_le_mono: "kids_le B kvs \<Longrightarrow> B \<le> B' \<Longrightarrow> kids_le B' kvs"
  by (auto simp: kids_le_def list_all_iff intro: sizes_le_mono)

lemma kids_le_update: "kids_le B kvs \<Longrightarrow> sizes_le B v \<Longrightarrow> kids_le B (AList.update k v kvs)"
  by (induction kvs) (auto simp: kids_le_def)

lemma kids_le_map_of: "kids_le B kvs \<Longrightarrow> map_of kvs k = Some c \<Longrightarrow> sizes_le B c"
  by (induction kvs) (auto simp: kids_le_def split: if_splits)

text \<open>While the sizes stay below the bound, a walk adds exactly and keeps them bounded.\<close>

lemma walk_bounded:
  "kids_le B (children t) \<Longrightarrow> B + sz \<le> 2 ^ 53 \<Longrightarrow> kids_le (B + sz) (children (walk sz ps t))"
proof (induction ps arbitrary: t)
  case Nil
  then show ?case by (simp add: kids_le_mono)
next
  case (Cons p rest)
  have js0: "js_add 0 sz = sz" using js_add_exact [of 0 sz] Cons.prems(2) by simp
  have up: "kids_le (B + sz) (children t)" using Cons.prems(1) by (rule kids_le_mono) simp
  show ?case
  proof (cases "map_of (children t) p")
    case None
    let ?new = "TreeNode p 0 [] (rest = [])"
    let ?kids = "children t @ [(p, ?new)]"
    let ?node' = "TreeNode p sz [] (rest = [])"
    have look: "map_of ?kids p = Some ?new" using None by (simp add: map_add_def)
    have w: "children (walk sz (p # rest) t) = AList.update p (walk sz rest ?node') ?kids"
      using None look js0 by (simp add: Let_def)
    have "kids_le (B + sz) (children (walk sz rest ?node'))"
      using Cons.prems(2) by (intro Cons.IH) (simp_all add: kids_le_def)
    then have "sizes_le (B + sz) (walk sz rest ?node')"
      by (simp add: sizes_le_iff walk_size_n)
    moreover have "kids_le (B + sz) ?kids" using up by (simp add: kids_le_def)
    ultimately show ?thesis unfolding w by (rule kids_le_update [rotated])
  next
    case (Some c)
    have c: "sizes_le B c" using Cons.prems(1) Some by (rule kids_le_map_of)
    then have "size_n c + sz \<le> 2 ^ 53" using Cons.prems(2) by (simp add: sizes_le_iff)
    then have js: "js_add (size_n c) sz = size_n c + sz" by (rule js_add_exact)
    let ?node' = "TreeNode (name c) (if rest = [] then sz else size_n c + sz) (children c) (isFile c)"
    have w: "children (walk sz (p # rest) t) = AList.update p (walk sz rest ?node') (children t)"
      using Some js by (simp add: Let_def)
    have "kids_le (B + sz) (children (walk sz rest ?node'))"
      using c Cons.prems(2) by (intro Cons.IH) (simp_all add: sizes_le_iff)
    then have "sizes_le (B + sz) (walk sz rest ?node')"
      using c by (simp add: sizes_le_iff walk_size_n)
    with up show ?thesis unfolding w by (rule kids_le_update)
  qed
qed

lemma walk_keeps_sums:
  "fresh ps t \<Longrightarrow> kids_ok (children t) \<Longrightarrow> kids_le B (children t) \<Longrightarrow> B + sz \<le> 2 ^ 53 \<Longrightarrow>
   kids_total (children (walk sz ps t)) = kids_total (children t) + sz
   \<and> kids_ok (children (walk sz ps t))"
proof (induction ps arbitrary: t)
  case Nil
  then show ?case by simp
next
  case (Cons p rest)
  have js0: "js_add 0 sz = sz" using js_add_exact [of 0 sz] Cons.prems(4) by simp
  show ?case
  proof (cases "map_of (children t) p")
    case None
    let ?new = "TreeNode p 0 [] (rest = [])"
    let ?kids = "children t @ [(p, ?new)]"
    let ?node' = "TreeNode p sz [] (rest = [])"
    have look: "map_of ?kids p = Some ?new" using None by (simp add: map_add_def)
    have w: "children (walk sz (p # rest) t) = AList.update p (walk sz rest ?node') ?kids"
      using None look js0 by (simp add: Let_def)
    have sub: "dirs_sum_ok (walk sz rest ?node') \<and> size_n (walk sz rest ?node') = sz"
    proof (cases rest)
      case Nil
      then show ?thesis by (simp add: kids_ok_def kids_total_def)
    next
      case (Cons r rs)
      then have "fresh rest ?node'" by simp
      moreover have "kids_ok (children ?node')" by (simp add: kids_ok_def)
      moreover have "kids_le B (children ?node')" by (simp add: kids_le_def)
      ultimately have "kids_total (children (walk sz rest ?node')) = kids_total (children ?node') + sz
        \<and> kids_ok (children (walk sz rest ?node'))"
        using Cons.prems(4) by (intro Cons.IH)
      then show ?thesis
        by (simp add: dirs_sum_ok_iff walk_size_n kids_total_def)
    qed
    have okk: "kids_ok ?kids" using Cons.prems(2) by (simp add: kids_ok_def kids_total_def)
    have "kids_total (AList.update p (walk sz rest ?node') ?kids) + size_n ?new
        = kids_total ?kids + size_n (walk sz rest ?node')"
      using look by (rule kids_total_update)
    then have "kids_total (children (walk sz (p # rest) t)) = kids_total (children t) + sz"
      unfolding w using sub by (simp add: kids_total_def)
    moreover have "kids_ok (children (walk sz (p # rest) t))"
      unfolding w using okk sub by (simp add: kids_ok_update)
    ultimately show ?thesis by simp
  next
    case (Some node)
    from Cons.prems(1) Some have fr: "rest \<noteq> []" "fresh rest node" by simp_all
    have nle: "sizes_le B node" using Cons.prems(3) Some by (rule kids_le_map_of)
    then have "size_n node + sz \<le> 2 ^ 53" using Cons.prems(4) by (simp add: sizes_le_iff)
    then have js: "js_add (size_n node) sz = size_n node + sz" by (rule js_add_exact)
    let ?node' = "TreeNode (name node) (size_n node + sz) (children node) (isFile node)"
    have w: "children (walk sz (p # rest) t) = AList.update p (walk sz rest ?node') (children t)"
      using Some fr js by (simp add: Let_def)
    have nok: "dirs_sum_ok node" using Cons.prems(2) Some by (rule kids_ok_map_of)
    have "fresh rest ?node'" using fr(2) by (cases rest) simp_all
    moreover have "kids_ok (children ?node')" using nok by (simp add: dirs_sum_ok_iff)
    moreover have "kids_le B (children ?node')" using nle by (simp add: sizes_le_iff)
    ultimately have ih: "kids_total (children (walk sz rest ?node')) = kids_total (children ?node') + sz
        \<and> kids_ok (children (walk sz rest ?node'))"
      using Cons.prems(4) by (intro Cons.IH)
    have sub: "dirs_sum_ok (walk sz rest ?node')"
      using ih nok by (auto simp: dirs_sum_ok_iff walk_size_n walk_isFile)
    have "kids_total (AList.update p (walk sz rest ?node') (children t)) + size_n node
        = kids_total (children t) + size_n (walk sz rest ?node')"
      using Some by (rule kids_total_update)
    then have "kids_total (children (walk sz (p # rest) t)) = kids_total (children t) + sz"
      unfolding w by (simp add: walk_size_n)
    moreover have "kids_ok (children (walk sz (p # rest) t))"
      unfolding w using Cons.prems(2) sub by (simp add: kids_ok_update)
    ultimately show ?thesis by simp
  qed
qed

lemma insertFile_keeps_sums:
  assumes "dirs_sum_ok t" "fresh (parts_of f) t" "sizes_le B t" "B + stats_size f \<le> 2 ^ 53"
  shows "dirs_sum_ok (insertFile t f)"
proof -
  let ?t' = "TreeNode (name t) (size_n t + stats_size f) (children t) (isFile t)"
  have "size_n t + stats_size f \<le> 2 ^ 53" using assms(3,4) by (simp add: sizes_le_iff)
  then have js: "js_add (size_n t) (stats_size f) = size_n t + stats_size f" by (rule js_add_exact)
  have "fresh (parts_of f) ?t'" using assms(2) by (cases "parts_of f") simp_all
  moreover have "kids_ok (children ?t')" using assms(1) by (simp add: dirs_sum_ok_iff)
  moreover have "kids_le B (children ?t')" using assms(3) by (simp add: sizes_le_iff)
  ultimately have "kids_total (children (walk (stats_size f) (parts_of f) ?t'))
      = kids_total (children ?t') + stats_size f
    \<and> kids_ok (children (walk (stats_size f) (parts_of f) ?t'))"
    using assms(4) by (rule walk_keeps_sums)
  then show ?thesis using assms(1)
    by (auto simp: insertFile_def js dirs_sum_ok_iff walk_size_n walk_isFile)
qed

lemma insertFile_bounded:
  assumes "sizes_le B t" "B + stats_size f \<le> 2 ^ 53"
  shows "sizes_le (B + stats_size f) (insertFile t f)"
proof -
  let ?t' = "TreeNode (name t) (size_n t + stats_size f) (children t) (isFile t)"
  have "size_n t + stats_size f \<le> 2 ^ 53" using assms by (simp add: sizes_le_iff)
  then have js: "js_add (size_n t) (stats_size f) = size_n t + stats_size f" by (rule js_add_exact)
  have "kids_le B (children ?t')" using assms(1) by (simp add: sizes_le_iff)
  then have "kids_le (B + stats_size f) (children (walk (stats_size f) (parts_of f) ?t'))"
    using assms(2) by (rule walk_bounded)
  then show ?thesis using assms(1)
    by (simp add: insertFile_def js sizes_le_iff walk_size_n)
qed

lemma walk_other_key:
  "q \<noteq> p \<Longrightarrow> map_of (children (walk sz (p # rest) t)) q = map_of (children t) q"
  by (simp add: Let_def update_conv' map_add_def split: option.splits)

lemma fresh_walk:
  "fresh q t \<Longrightarrow> \<not> prefix q p \<Longrightarrow> fresh q (walk sz p t)"
proof (induction p arbitrary: q t)
  case Nil
  then show ?case by simp
next
  case (Cons p1 pr)
  then obtain q1 qr where q: "q = q1 # qr" by (cases q) auto
  show ?case
  proof (cases "q1 = p1")
    case False
    then show ?thesis using Cons.prems(1) by (simp add: q walk_other_key del: walk.simps)
  next
    case True
    with Cons.prems q have inc: "\<not> prefix qr pr" by simp
    then have ne: "qr \<noteq> []" by auto
    show ?thesis
    proof (cases "map_of (children t) p1")
      case None
      let ?node' = "TreeNode p1 (if pr = [] then sz else js_add 0 sz) [] (pr = [])"
      have "fresh qr ?node'" using ne by (cases qr) simp_all
      then have "fresh qr (walk sz pr ?node')" using inc by (rule Cons.IH)
      then show ?thesis using None ne True
        by (cases "pr = []") (simp_all add: q Let_def update_conv' map_add_def)
    next
      case (Some node)
      let ?node' = "TreeNode (name node) (if pr = [] then sz else js_add (size_n node) sz)
                      (children node) (isFile node)"
      from Cons.prems(1) Some True q have fr: "fresh qr node" by simp
      have "fresh qr ?node'" using fr by (cases qr) simp_all
      then have "fresh qr (walk sz pr ?node')" using inc by (rule Cons.IH)
      then show ?thesis using Some ne True
        by (cases "pr = []") (simp_all add: q Let_def update_conv')
    qed
  qed
qed

lemma fresh_insertFile:
  "fresh q t \<Longrightarrow> \<not> prefix q (parts_of f) \<Longrightarrow> fresh q (insertFile t f)"
proof -
  assume a: "fresh q t" "\<not> prefix q (parts_of f)"
  let ?t' = "TreeNode (name t) (js_add (size_n t) (stats_size f)) (children t) (isFile t)"
  have "fresh q ?t'" using a(1) by (cases q) simp_all
  then show ?thesis using a(2) unfolding insertFile_def by (rule fresh_walk)
qed

lemma foldl_insertFile_keeps_sums:
  "dirs_sum_ok t \<Longrightarrow>
   (\<And>q. q \<noteq> [] \<Longrightarrow> (\<And>p. p \<in> P \<Longrightarrow> \<not> prefix q p) \<Longrightarrow> fresh q t) \<Longrightarrow>
   no_path_revisited (map parts_of fs) \<Longrightarrow>
   (\<And>f p. f \<in> set fs \<Longrightarrow> p \<in> P \<Longrightarrow> \<not> prefix (parts_of f) p) \<Longrightarrow>
   sizes_le B t \<Longrightarrow> B + sum_list (map stats_size fs) \<le> 2 ^ 53 \<Longrightarrow>
   dirs_sum_ok (foldl insertFile t fs)"
proof (induction fs arbitrary: t P B)
  case Nil
  then show ?case by simp
next
  case (Cons f fs)
  have npc: "parts_of f \<noteq> []" "no_path_revisited (map parts_of fs)"
    and later: "\<And>g. g \<in> set fs \<Longrightarrow> \<not> prefix (parts_of g) (parts_of f)"
    using Cons.prems(3) by (auto simp: list_all_iff)
  have bf: "B + stats_size f \<le> 2 ^ 53"
    and brest: "B + stats_size f + sum_list (map stats_size fs) \<le> 2 ^ 53"
    using Cons.prems(6) by simp_all
  have frf: "fresh (parts_of f) t"
    using npc(1) Cons.prems(4) by (intro Cons.prems(2)) auto
  have ok': "dirs_sum_ok (insertFile t f)"
    using Cons.prems(1) frf Cons.prems(5) bf by (rule insertFile_keeps_sums)
  have le': "sizes_le (B + stats_size f) (insertFile t f)"
    using Cons.prems(5) bf by (rule insertFile_bounded)
  have "dirs_sum_ok (foldl insertFile (insertFile t f) fs)"
  proof (rule Cons.IH [where P = "insert (parts_of f) P" and B = "B + stats_size f"])
    show "dirs_sum_ok (insertFile t f)" by (rule ok')
  next
    fix q :: "string list"
    assume q: "q \<noteq> []" and inc: "\<And>p. p \<in> insert (parts_of f) P \<Longrightarrow> \<not> prefix q p"
    have "fresh q t" using q inc by (intro Cons.prems(2)) auto
    then show "fresh q (insertFile t f)" using inc by (intro fresh_insertFile) auto
  next
    show "no_path_revisited (map parts_of fs)" by (rule npc(2))
  next
    fix g p assume "g \<in> set fs" "p \<in> insert (parts_of f) P"
    then show "\<not> prefix (parts_of g) p"
      using later Cons.prems(4) by auto
  next
    show "sizes_le (B + stats_size f) (insertFile t f)" by (rule le')
  next
    show "B + stats_size f + sum_list (map stats_size fs) \<le> 2 ^ 53" by (rule brest)
  qed
  then show ?case by simp
qed

text \<open>
  Claim C1, as amended. For every file list in which every path has at least one segment,
  no path's segment sequence is a prefix of, or equal to, that of a path earlier in the
  list (every path ends at a node that no earlier path has created; in particular no path
  occurs twice), and the sum of all byte sizes is at most \<open>2^53\<close> (so that the additions of
  doubles are exact), every directory node of the tree that \<^verbatim>\<open>buildTree\<close> returns, the root
  included, has the sum of its immediate children's sizes as its size.
\<close>

theorem buildTree_dirs_sum:
  "no_path_revisited (map parts_of files) \<Longrightarrow> sum_list (map stats_size files) \<le> 2 ^ 53 \<Longrightarrow>
   dirs_sum_ok (buildTree files)"
  unfolding buildTree_def
proof (rule foldl_insertFile_keeps_sums [where P = "{}" and B = 0])
  show "dirs_sum_ok emptyRoot" by (simp add: emptyRoot_def kids_total_def)
next
  fix q :: "string list" assume "q \<noteq> []"
  then show "fresh q emptyRoot" by (cases q) (simp_all add: emptyRoot_def)
next
  show "sizes_le 0 emptyRoot" by (simp add: emptyRoot_def)
qed simp_all

theorem buildTree_dirs_sum_witness:
  "no_path_revisited (map parts_of scenario_files)
   \<and> sum_list (map stats_size scenario_files) \<le> 2 ^ 53
   \<and> dirs_sum_ok (buildTree scenario_files)
   \<and> buildTree scenario_files =
       TreeNode [] 9227
         [(''dist'', TreeNode ''dist'' 6300 [(''index.cjs'', TreeNode ''index.cjs'' 6300 [] True)] False),
          (''package.json'', TreeNode ''package.json'' 1351 [] True),
          (''LICENSE'', TreeNode ''LICENSE'' 1065 [] True),
          (''README.md'', TreeNode ''README.md'' 511 [] True)] False"
proof -
  have h: "no_path_revisited (map parts_of scenario_files)"
    by (simp add: scenario_files_def parts_of_def path_sep_def)
  have b: "sum_list (map stats_size scenario_files) \<le> 2 ^ 53"
    by (simp add: scenario_files_def)
  from buildTree_dirs_sum [OF h b] h b show ?thesis by (simp add: buildTree_scenario)
qed

text \<open>
  The claim with its own hypothesis only (no relative path appears twice) fails in two
  ways. After \<^verbatim>\<open>a/b\<close> (4 bytes) the path \<^verbatim>\<open>a\<close> (3 bytes) ends at the directory \<^verbatim>\<open>a\<close> and
  overwrites its size, so \<^verbatim>\<open>a\<close> has size 3 over a child of size 4, and the root has size 7
  over a child of size 3. And for \<^verbatim>\<open>d/s/a\<close> (1 byte), \<^verbatim>\<open>d/t\<close> (\<open>2^53\<close> bytes), \<^verbatim>\<open>d/s/b\<close> (1 byte)
  the additions of doubles round: \<^verbatim>\<open>d\<close> has size \<open>2^53\<close> over children of sizes 2 and \<open>2^53\<close>.
\<close>

theorem buildTree_dirs_sum_counterexample:
  "distinct (map path [\<lparr>path = ''a/b'', stats_size = 4\<rparr>, \<lparr>path = ''a'', stats_size = 3\<rparr>])
   \<and> distinct (map parts_of [\<lparr>path = ''a/b'', stats_size = 4\<rparr>, \<lparr>path = ''a'', stats_size = 3\<rparr>])
   \<and> buildTree [\<lparr>path = ''a/b'', stats_size = 4\<rparr>, \<lparr>path = ''a'', stats_size = 3\<rparr>]
       = TreeNode [] 7 [(''a'', TreeNode ''a'' 3 [(''b'', TreeNode ''b'' 4 [] True)] False)] False
   \<and> \<not> dirs_sum_ok (buildTree [\<lparr>path = ''a/b'', stats_size = 4\<rparr>, \<lparr>path = ''a'', stats_size = 3\<rparr>])
   \<and> no_path_revisited (map parts_of
        [\<lparr>path = ''d/s/a'', stats_size = 1\<rparr>, \<lparr>path = ''d/t'', stats_size = 9007199254740992\<rparr>,
         \<lparr>path = ''d/s/b'', stats_size = 1\<rparr>])
   \<and> buildTree
        [\<lparr>path = ''d/s/a'', stats_size = 1\<rparr>, \<lparr>path = ''d/t'', stats_size = 9007199254740992\<rparr>,
         \<lparr>path = ''d/s/b'', stats_size = 1\<rparr>]
       = TreeNode [] 9007199254740992
           [(''d'', TreeNode ''d'' 9007199254740992
               [(''s'', TreeNode ''s'' 2
                   [(''a'', TreeNode ''a'' 1 [] True), (''b'', TreeNode ''b'' 1 [] True)] False),
                (''t'', TreeNode ''t'' 9007199254740992 [] True)] False)] False
   \<and> \<not> dirs_sum_ok (buildTree
        [\<lparr>path = ''d/s/a'', stats_size = 1\<rparr>, \<lparr>path = ''d/t'', stats_size = 9007199254740992\<rparr>,
         \<lparr>path = ''d/s/b'', stats_size = 1\<rparr>])"
proof -
  have small: "js_add 0 (Suc 0) = Suc 0" "js_add (Suc 0) (Suc 0) = 2" "js_add 0 4 = 4"
    "js_add 4 3 = 7"
    by (simp_all add: js_add_exact)
  show ?thesis
    by (simp add: buildTree_def insertFile_def parts_of_def path_sep_def emptyRoot_def kids_total_def
        small js_add_rounds)
qed

section \<open>Order of siblings\<close>

lemma compareNodes_le: "(compareNodes a b \<le> 0) = kind_size_order a b"
  by (auto simp: compareNodes_def kind_size_order_def)

lemma kind_size_order_total: "\<not> kind_size_order a b \<Longrightarrow> kind_size_order b a"
  by (auto simp: kind_size_order_def)

lemma kind_size_order_trans: "kind_size_order a b \<Longrightarrow> kind_size_order b c \<Longrightarrow> kind_size_order a c"
  by (auto simp: kind_size_order_def)

lemma mset_insert_by: "mset (insert_by cmp x xs) = add_mset x (mset xs)"
  by (induction xs) auto

lemma mset_array_sort: "mset (array_sort cmp xs) = mset xs"
  unfolding array_sort_def by (induction xs) (simp_all add: mset_insert_by)

lemma sorted_insert_by:
  "sorted_wrt kind_size_order xs \<Longrightarrow> sorted_wrt kind_size_order (insert_by compareNodes x xs)"
proof (induction xs)
  case Nil
  then show ?case by simp
next
  case (Cons y ys)
  show ?case
  proof (cases "kind_size_order x y")
    case True
    then have "\<forall>z\<in>set ys. kind_size_order x z"
      using Cons.prems by (auto intro: kind_size_order_trans)
    then show ?thesis using True Cons.prems by (simp add: compareNodes_le)
  next
    case False
    then have "kind_size_order y x" by (rule kind_size_order_total)
    then show ?thesis using False Cons by (auto simp: compareNodes_le set_insert_by)
  qed
qed

lemma sorted_array_sort: "sorted_wrt kind_size_order (array_sort compareNodes xs)"
  unfolding array_sort_def by (induction xs) (simp_all add: sorted_insert_by)

lemma filter_insert_by:
  "filter (same_rank f s) (insert_by compareNodes x xs) = filter (same_rank f s) (x # xs)"
proof (induction xs)
  case Nil
  then show ?case by simp
next
  case (Cons y ys)
  show ?case
  proof (cases "compareNodes x y \<le> 0")
    case True
    then show ?thesis by simp
  next
    case False
    then have "\<not> (same_rank f s x \<and> same_rank f s y)"
      by (auto simp: same_rank_def compareNodes_def split: if_splits)
    then show ?thesis using False Cons.IH by auto
  qed
qed

lemma filter_array_sort:
  "filter (same_rank f s) (array_sort compareNodes xs) = filter (same_rank f s) xs"
  unfolding array_sort_def by (induction xs) (simp_all add: filter_insert_by)

lemma serializeTree_isFile_j: "isFile_j (serializeTree e node tot parentPath) = isFile node"
  by (subst serializeTree.simps) (simp add: Let_def)

lemma serializeTree_sizeBytes: "sizeBytes (serializeTree e node tot parentPath) = size_n node"
  by (subst serializeTree.simps) (simp add: Let_def)

lemma json_sorted_iff: "json_sorted r = (sorted_wrt json_order (children_j r) \<and> list_all json_sorted (children_j r))"
  by (cases r) simp

lemma json_sorted_serializeTree: "json_sorted (serializeTree e node tot parentPath)"
proof (induction e node tot parentPath rule: serializeTree.induct)
  case (1 e node tot parentPath)
  let ?cur = "if parentPath \<noteq> [] then path_join parentPath (name node) else name node"
  have kids: "children_j (serializeTree e node tot parentPath)
      = map (\<lambda>child. serializeTree e child tot ?cur) (sortChildren node)"
    by (subst serializeTree.simps) (simp add: Let_def)
  have "sorted_wrt kind_size_order (sortChildren node)"
    by (simp add: sortChildren_def sorted_array_sort)
  moreover have "(\<lambda>a b. json_order (serializeTree e a tot ?cur) (serializeTree e b tot ?cur))
      = kind_size_order"
    by (intro ext) (simp add: json_order_def kind_size_order_def
        serializeTree_isFile_j serializeTree_sizeBytes)
  ultimately have "sorted_wrt json_order (map (\<lambda>child. serializeTree e child tot ?cur) (sortChildren node))"
    by (simp add: sorted_wrt_map)
  moreover have "list_all json_sorted (map (\<lambda>child. serializeTree e child tot ?cur) (sortChildren node))"
    using "1.IH" by (simp add: list_all_iff)
  ultimately show ?case by (simp add: json_sorted_iff kids)
qed

lemma walk_keys:
  "map fst (children (walk sz (part # rest) current))
     = (if map_of (children current) part = None then map fst (children current) @ [part]
        else map fst (children current))"
  by (auto simp: Let_def update_keys map_add_def map_of_eq_None_iff split: option.splits)

text \<open>The renderer prints one line per node, for the nodes in display order.\<close>

lemma displayTree_node:
  "displayTree e node tot prefix_s isLast =
     node_line e tot prefix_s isLast node
     # concat (map (\<lambda>(i, child). displayTree e child tot
                      (prefix_s @ (if isLast then ''   '' else bar @ ''  ''))
                      (i = length (sortChildren node) - 1))
                (enumerate 0 (sortChildren node)))"
  by (subst displayTree.simps) (simp add: Let_def node_line_def)

lemma rows_of_blocks:
  assumes "\<forall>x\<in>set xs. \<exists>rows. blk x = map L rows \<and> map T rows = ord x"
  shows "\<exists>rows. concat (map blk xs) = map L rows \<and> map T rows = concat (map ord xs)"
proof -
  from bchoice [OF assms] obtain f
    where f: "\<forall>x\<in>set xs. blk x = map L (f x) \<and> map T (f x) = ord x" ..
  have "concat (map blk xs) = map L (concat (map f xs))"
    using f by (induction xs) simp_all
  moreover have "map T (concat (map f xs)) = concat (map ord xs)"
    using f by (induction xs) simp_all
  ultimately show ?thesis by blast
qed

lemma concat_display_order_enumerate:
  "concat (map (\<lambda>(i, child). display_order child) (enumerate n ys)) = concat (map display_order ys)"
  by (induction ys arbitrary: n) simp_all

lemma displayTree_rows:
  "\<exists>rows. displayTree e node tot prefix_s isLast
            = map (\<lambda>(pre, last, n). node_line e tot pre last n) rows
         \<and> map (\<lambda>(pre, last, n). n) rows = display_order node"
proof (induction "size node" arbitrary: node prefix_s isLast rule: less_induct)
  case less
  let ?L = "\<lambda>(pre, last, n). node_line e tot pre last n"
  let ?T = "\<lambda>(pre :: string, last :: bool, n :: TreeNode). n"
  let ?ys = "sortChildren node"
  let ?cp = "prefix_s @ (if isLast then ''   '' else bar @ ''  '')"
  let ?blk = "\<lambda>(i, child). displayTree e child tot ?cp (i = length ?ys - 1)"
  have "\<forall>x\<in>set (enumerate 0 ?ys). \<exists>rows. ?blk x = map ?L rows
      \<and> map ?T rows = (\<lambda>(i, child). display_order child) x"
  proof
    fix x assume x: "x \<in> set (enumerate 0 ?ys)"
    obtain i child where ic: "x = (i, child)" by (cases x)
    with x have "child \<in> set ?ys" by (auto simp: in_set_enumerate_eq)
    then have "size child < size node" by (rule sortChildren_size_less)
    then show "\<exists>rows. ?blk x = map ?L rows \<and> map ?T rows = (\<lambda>(i, child). display_order child) x"
      using less [of child ?cp "i = length ?ys - 1"] by (simp add: ic)
  qed
  then obtain rows where rows: "concat (map ?blk (enumerate 0 ?ys)) = map ?L rows"
      "map ?T rows = concat (map (\<lambda>(i, child). display_order child) (enumerate 0 ?ys))"
    using rows_of_blocks [of "enumerate 0 ?ys" ?blk ?L ?T "\<lambda>(i, child). display_order child"]
    by blast
  have "displayTree e node tot prefix_s isLast = map ?L ((prefix_s, isLast, node) # rows)"
    using rows(1) by (subst displayTree_node) simp
  moreover have "map ?T ((prefix_s, isLast, node) # rows) = display_order node"
    by (subst display_order.simps) (simp add: rows(2) concat_display_order_enumerate)
  ultimately show ?case by blast
qed

lemma runAnalyze_human_rows:
  "\<exists>rows. fst (runAnalyze e files \<lparr>failIfExceedsBytes = c, json = None\<rparr>)
            = StdoutLine (''Total unpacked size: '' @ displaySize e (int (totalSize_of files)))
              # map (\<lambda>(pre, last, n). StdoutLine (node_line e (totalSize_of files) pre last n)) rows
         \<and> map (\<lambda>(pre, last, n). n) rows
            = concat (map display_order (sortChildren (buildTree files)))"
proof -
  let ?tot = "totalSize_of files"
  let ?L = "\<lambda>(pre, last, n). node_line e ?tot pre last n"
  let ?T = "\<lambda>(pre :: string, last :: bool, n :: TreeNode). n"
  let ?ys = "sortChildren (buildTree files)"
  let ?blk = "\<lambda>(i, child). displayTree e child ?tot [] (i = length ?ys - 1)"
  have "\<forall>x\<in>set (enumerate 0 ?ys). \<exists>rows. ?blk x = map ?L rows
      \<and> map ?T rows = (\<lambda>(i, child). display_order child) x"
    using displayTree_rows [of e _ ?tot "[]"] by (auto simp: split_beta)
  then obtain rows where rows: "concat (map ?blk (enumerate 0 ?ys)) = map ?L rows"
      "map ?T rows = concat (map (\<lambda>(i, child). display_order child) (enumerate 0 ?ys))"
    using rows_of_blocks [of "enumerate 0 ?ys" ?blk ?L ?T "\<lambda>(i, child). display_order child"]
    by blast
  have "fst (runAnalyze e files \<lparr>failIfExceedsBytes = c, json = None\<rparr>)
      = StdoutLine (''Total unpacked size: '' @ displaySize e (int ?tot))
        # map (\<lambda>(pre, last, n). StdoutLine (node_line e ?tot pre last n)) rows"
    using rows(1) by (simp add: runAnalyze_def truthy_def Let_def split_beta comp_def)
  then show ?thesis using rows(2) by (auto simp: concat_display_order_enumerate)
qed

lemma pct_twentieths:
  "toFixed1 (js_times100 (Num (binary64 (3 / 20)))) = ''15.0''"
  "toFixed1 (js_times100 (Num (binary64 (7 / 20)))) = ''35.0''"
  "toFixed1 (js_times100 (Num (binary64 (1 / 4)))) = ''25.0''"
  by code_simp+

lemma show_nat_small:
  "show_nat 3 = ''3''" "show_nat 5 = ''5''" "show_nat 7 = ''7''" "show_nat 20 = ''20''"
  by code_simp+

text \<open>
  Claim C4. At every level of the rendered tree and of the serialized document the
  siblings are the children of the node in the order \<open>sortChildren\<close> gives them. The
  renderer prints the line of the node and then the blocks of its children in that order;
  so its output is one line per node, for the nodes in \<open>display_order\<close>: each node before
  its children, the children in sorted order. The serializer lists the records of the
  children in that order, and the top level of both modes does the same for the children of
  the root, in human-readable mode after the line of the total. In that order no file
  precedes a directory, siblings of the same kind have descending sizes, and siblings of
  the same kind and size keep the order of the children map, which is the order of first
  insertion: a walk appends a name that is new at a node and leaves the order of the
  others alone. Every level of every serialized record is ordered so.
\<close>

theorem siblings_sorted:
  "sorted_wrt kind_size_order (sortChildren node)
   \<and> mset (sortChildren node) = mset (map snd (children node))
   \<and> filter (same_rank f s) (sortChildren node) = filter (same_rank f s) (map snd (children node))
   \<and> children_j (serializeTree e node tot parentPath)
       = map (\<lambda>child. serializeTree e child tot (path_j (serializeTree e node tot parentPath)))
           (sortChildren node)
   \<and> displayTree e node tot prefix_s isLast
       = node_line e tot prefix_s isLast node
         # concat (map (\<lambda>(i, child). displayTree e child tot
                          (prefix_s @ (if isLast then ''   '' else bar @ ''  ''))
                          (i = length (sortChildren node) - 1))
                    (enumerate 0 (sortChildren node)))
   \<and> (\<exists>rows. displayTree e node tot prefix_s isLast
                = map (\<lambda>(pre, last, n). node_line e tot pre last n) rows
              \<and> map (\<lambda>(pre, last, n). n) rows = display_order node)
   \<and> display_order node = node # concat (map display_order (sortChildren node))
   \<and> json_sorted (serializeTree e node tot parentPath)
   \<and> map fst (children (walk sz (part # rest) current))
       = (if map_of (children current) part = None then map fst (children current) @ [part]
          else map fst (children current))
   \<and> fst (runAnalyze e files \<lparr>failIfExceedsBytes = c, json = Some True\<rparr>)
       = [StdoutJson \<lparr>totalSizeBytes = totalSize_of files,
            totalSize = displaySize e (int (totalSize_of files)),
            entries = map (\<lambda>child. serializeTree e child (totalSize_of files) [])
                        (sortChildren (buildTree files))\<rparr>]
   \<and> fst (runAnalyze e files \<lparr>failIfExceedsBytes = c, json = None\<rparr>)
       = StdoutLine (''Total unpacked size: '' @ displaySize e (int (totalSize_of files)))
         # map StdoutLine
             (concat (map (\<lambda>(i, child). displayTree e child (totalSize_of files) []
                              (i = length (sortChildren (buildTree files)) - 1))
                        (enumerate 0 (sortChildren (buildTree files)))))
   \<and> (\<exists>rows. fst (runAnalyze e files \<lparr>failIfExceedsBytes = c, json = None\<rparr>)
                = StdoutLine (''Total unpacked size: '' @ displaySize e (int (totalSize_of files)))
                  # map (\<lambda>(pre, last, n). StdoutLine (node_line e (totalSize_of files) pre last n)) rows
              \<and> map (\<lambda>(pre, last, n). n) rows
                = concat (map display_order (sortChildren (buildTree files))))"
proof -
  have "sorted_wrt kind_size_order (sortChildren node)"
    by (simp add: sortChildren_def sorted_array_sort)
  moreover have "mset (sortChildren node) = mset (map snd (children node))"
    by (simp add: sortChildren_def mset_array_sort)
  moreover have "filter (same_rank f s) (sortChildren node) = filter (same_rank f s) (map snd (children node))"
    by (simp add: sortChildren_def filter_array_sort)
  moreover have "children_j (serializeTree e node tot parentPath)
       = map (\<lambda>child. serializeTree e child tot (path_j (serializeTree e node tot parentPath)))
           (sortChildren node)"
    by (simp add: serializeTree.simps [of e node] Let_def)
  moreover note displayTree_node [of e node tot prefix_s isLast]
    displayTree_rows [of e node tot prefix_s isLast]
    display_order.simps [of node]
    json_sorted_serializeTree [of e node tot parentPath]
    walk_keys [of sz part rest current]
  moreover have "fst (runAnalyze e files \<lparr>failIfExceedsBytes = c, json = Some True\<rparr>)
       = [StdoutJson \<lparr>totalSizeBytes = totalSize_of files,
            totalSize = displaySize e (int (totalSize_of files)),
            entries = map (\<lambda>child. serializeTree e child (totalSize_of files) [])
                        (sortChildren (buildTree files))\<rparr>]"
    by (simp add: runAnalyze_def truthy_def Let_def)
  moreover have "fst (runAnalyze e files \<lparr>failIfExceedsBytes = c, json = None\<rparr>)
       = StdoutLine (''Total unpacked size: '' @ displaySize e (int (totalSize_of files)))
         # map StdoutLine
             (concat (map (\<lambda>(i, child). displayTree e child (totalSize_of files) []
                              (i = length (sortChildren (buildTree files)) - 1))
                        (enumerate 0 (sortChildren (buildTree files)))))"
    by (simp add: runAnalyze_def truthy_def Let_def)
  moreover note runAnalyze_human_rows [of e files c]
  ultimately show ?thesis by (intro conjI)
qed

theorem siblings_sorted_witness:
  "map name (sortChildren (buildTree
      [\<lparr>path = ''x'', stats_size = 5\<rparr>, \<lparr>path = ''d/z'', stats_size = 3\<rparr>,
       \<lparr>path = ''y'', stats_size = 5\<rparr>, \<lparr>path = ''w'', stats_size = 7\<rparr>]))
     = [''d'', ''w'', ''x'', ''y'']
   \<and> sorted_wrt kind_size_order (sortChildren (buildTree
      [\<lparr>path = ''x'', stats_size = 5\<rparr>, \<lparr>path = ''d/z'', stats_size = 3\<rparr>,
       \<lparr>path = ''y'', stats_size = 5\<rparr>, \<lparr>path = ''w'', stats_size = 7\<rparr>]))
   \<and> map name (filter (same_rank True 5) (sortChildren (buildTree
      [\<lparr>path = ''x'', stats_size = 5\<rparr>, \<lparr>path = ''d/z'', stats_size = 3\<rparr>,
       \<lparr>path = ''y'', stats_size = 5\<rparr>, \<lparr>path = ''w'', stats_size = 7\<rparr>])))
     = [''x'', ''y'']
   \<and> fst (runAnalyze plain_env
      [\<lparr>path = ''x'', stats_size = 5\<rparr>, \<lparr>path = ''d/z'', stats_size = 3\<rparr>,
       \<lparr>path = ''y'', stats_size = 5\<rparr>, \<lparr>path = ''w'', stats_size = 7\<rparr>]
      \<lparr>failIfExceedsBytes = None, json = None\<rparr>)
     = [StdoutLine ''Total unpacked size: 20 B'',
        StdoutLine (tee @ '' d 3 B (15.0%)''),
        StdoutLine (bar @ ''  '' @ corner @ '' z 3 B (15.0%)''),
        StdoutLine (tee @ '' w 7 B (35.0%)''),
        StdoutLine (tee @ '' x 5 B (25.0%)''),
        StdoutLine (corner @ '' y 5 B (25.0%)'')]
   \<and> map name (display_order (buildTree
      [\<lparr>path = ''x'', stats_size = 5\<rparr>, \<lparr>path = ''d/z'', stats_size = 3\<rparr>,
       \<lparr>path = ''y'', stats_size = 5\<rparr>, \<lparr>path = ''w'', stats_size = 7\<rparr>]))
     = [[], ''d'', ''z'', ''w'', ''x'', ''y'']"
proof -
  let ?files = "[\<lparr>path = ''x'', stats_size = 5\<rparr>, \<lparr>path = ''d/z'', stats_size = 3\<rparr>,
       \<lparr>path = ''y'', stats_size = 5\<rparr>, \<lparr>path = ''w'', stats_size = 7\<rparr>]"
  let ?t = "buildTree ?files"
  let ?d = "TreeNode ''d'' 3 [(''z'', TreeNode ''z'' 3 [] True)] False"
  have t: "?t = TreeNode [] 20
      [(''x'', TreeNode ''x'' 5 [] True), (''d'', ?d),
       (''y'', TreeNode ''y'' 5 [] True),
       (''w'', TreeNode ''w'' 7 [] True)] False"
    by (simp add: buildTree_def insertFile_def parts_of_def path_sep_def emptyRoot_def js_add_exact)
  have tot: "totalSize_of ?files = 20"
    by (simp add: totalSize_of_def js_add_exact)
  have sc: "sortChildren ?t
      = [?d, TreeNode ''w'' 7 [] True, TreeNode ''x'' 5 [] True, TreeNode ''y'' 5 [] True]"
    unfolding t by (simp add: sortChildren_def array_sort_def compareNodes_def)
  have sd: "sortChildren ?d = [TreeNode ''z'' 3 [] True]"
    by (simp add: sortChildren_def array_sort_def)
  have sl: "sortChildren (TreeNode n k [] True) = []" for n k
    by (simp add: sortChildren_def array_sort_def)
  have s: "map name (sortChildren ?t) = [''d'', ''w'', ''x'', ''y'']"
    by (simp only: sc) simp
  have "filter (same_rank True 5) (sortChildren ?t) = filter (same_rank True 5) (map snd (children ?t))"
    using siblings_sorted [of ?t True 5] by blast
  then have f: "map name (filter (same_rank True 5) (sortChildren ?t)) = [''x'', ''y'']"
    unfolding t by (simp add: same_rank_def)
  have "fst (runAnalyze plain_env ?files \<lparr>failIfExceedsBytes = None, json = None\<rparr>)
       = StdoutLine (''Total unpacked size: '' @ displaySize plain_env (int (totalSize_of ?files)))
         # map StdoutLine
             (concat (map (\<lambda>(i, child). displayTree plain_env child (totalSize_of ?files) []
                              (i = length (sortChildren ?t) - 1))
                        (enumerate 0 (sortChildren ?t))))"
    using siblings_sorted [where e = plain_env and files = ?files and c = None] by blast
  then have r: "fst (runAnalyze plain_env ?files \<lparr>failIfExceedsBytes = None, json = None\<rparr>)
     = [StdoutLine ''Total unpacked size: 20 B'',
        StdoutLine (tee @ '' d 3 B (15.0%)''),
        StdoutLine (bar @ ''  '' @ corner @ '' z 3 B (15.0%)''),
        StdoutLine (tee @ '' w 7 B (35.0%)''),
        StdoutLine (tee @ '' x 5 B (25.0%)''),
        StdoutLine (corner @ '' y 5 B (25.0%)'')]"
    unfolding tot sc
    by (simp add: enumerate_eq_zip displayTree_TreeNode sd sl plain_env_def js_div_numeral
        pct_twentieths show_nat_small)
  have "display_order ?t = ?t # concat (map display_order (sortChildren ?t))"
    using siblings_sorted [of ?t] by blast
  then have o: "map name (display_order ?t) = [[], ''d'', ''z'', ''w'', ''x'', ''y'']"
    unfolding sc by (simp add: display_order.simps [of "TreeNode n k kids b" for n k kids b] sd sl t)
  from siblings_sorted [of ?t] s f r o show ?thesis by blast
qed

section \<open>Duplicate paths\<close>

lemma lookup_path_resize:
  "ps \<noteq> [] \<Longrightarrow> lookup_path ps (TreeNode n s kids f) = lookup_path ps (TreeNode n s' kids f)"
  by (cases ps) simp_all










section \<open>Serialized paths\<close>

lemma split_sep_nonempty: "split_sep c xs \<noteq> []"
  by (induction xs) (auto split: list.splits)

lemma split_sep_no_sep: "c \<notin> set s \<Longrightarrow> split_sep c s = [s]"
  by (induction s) auto

lemma split_sep_append:
  "c \<notin> set s \<Longrightarrow> split_sep c (s @ c # rest) = s # split_sep c rest"
  by (induction s) (auto split: list.splits)

lemma split_sep_join:
  "segs \<noteq> [] \<Longrightarrow> \<forall>s\<in>set segs. c \<notin> set s \<Longrightarrow> split_sep c (join_with c segs) = segs"
proof (induction c segs rule: join_with.induct)
  case (1 c)
  then show ?case by simp
next
  case (2 c s)
  then show ?case by (simp add: split_sep_no_sep)
next
  case (3 c s t ss)
  then show ?case by (simp add: split_sep_append)
qed

lemma normalizeSegments_clean:
  "\<forall>s\<in>set segs. clean_segment s \<Longrightarrow> normalizeSegments b res segs = res @ segs"
  by (induction segs arbitrary: res) (auto simp: clean_segment_def)

lemma join_with_snoc:
  "segs \<noteq> [] \<Longrightarrow> join_with c (segs @ [s]) = join_with c segs @ c # s"
  by (induction c segs rule: join_with.induct) auto

lemma join_with_hd:
  "segs \<noteq> [] \<Longrightarrow> hd segs \<noteq> [] \<Longrightarrow> join_with c segs \<noteq> [] \<and> hd (join_with c segs) = hd (hd segs)"
  by (induction c segs rule: join_with.induct) auto

lemma join_with_last:
  "segs \<noteq> [] \<Longrightarrow> last segs \<noteq> [] \<Longrightarrow>
   join_with c segs \<noteq> [] \<and> last (join_with c segs) = last (last segs)"
  by (induction c segs rule: join_with.induct) auto

lemma path_normalize_clean:
  assumes "segs \<noteq> []" "\<forall>s\<in>set segs. clean_segment s"
  shows "path_normalize (join_with (CHR ''/'') segs) = join_with (CHR ''/'') segs"
proof -
  let ?p = "join_with (CHR ''/'') segs"
  have hdc: "clean_segment (hd segs)" and lastc: "clean_segment (last segs)"
    using assms by simp_all
  have ne: "?p \<noteq> []" and h: "hd ?p = hd (hd segs)"
    using join_with_hd [of segs "CHR ''/''"] assms(1) hdc by (simp_all add: clean_segment_def)
  have l: "last ?p = last (last segs)"
    using join_with_last [of segs "CHR ''/''"] assms(1) lastc by (simp add: clean_segment_def)
  have "hd (hd segs) \<in> set (hd segs)" using hdc by (simp add: clean_segment_def)
  moreover have "CHR ''/'' \<notin> set (hd segs)" using hdc by (simp add: clean_segment_def)
  ultimately have "hd (hd segs) \<noteq> CHR ''/''" by auto
  then have h': "hd ?p \<noteq> CHR ''/''" using h by simp
  have "last (last segs) \<in> set (last segs)" using lastc by (simp add: clean_segment_def)
  moreover have "CHR ''/'' \<notin> set (last segs)" using lastc by (simp add: clean_segment_def)
  ultimately have "last (last segs) \<noteq> CHR ''/''" by auto
  then have l': "last ?p \<noteq> CHR ''/''" using l by simp
  have sp: "split_sep (CHR ''/'') ?p = segs"
    using assms by (intro split_sep_join) (auto simp: clean_segment_def)
  show ?thesis
    using ne h' l' assms(2) by (simp add: path_normalize_def sp normalizeSegments_clean Let_def)
qed

lemma path_join_clean:
  assumes "ancestors \<noteq> []" "\<forall>s\<in>set ancestors. clean_segment s" "clean_segment n"
  shows "path_join (join_with (CHR ''/'') ancestors) n = join_with (CHR ''/'') (ancestors @ [n])"
proof -
  have ne: "join_with (CHR ''/'') ancestors \<noteq> []"
    using join_with_hd [of ancestors "CHR ''/''"] assms(1,2) by (simp add: clean_segment_def)
  have n: "n \<noteq> []" using assms(3) by (simp add: clean_segment_def)
  have "path_normalize (join_with (CHR ''/'') (ancestors @ [n])) = join_with (CHR ''/'') (ancestors @ [n])"
    using assms by (intro path_normalize_clean) auto
  then show ?thesis using ne n assms(1) by (simp add: path_join_def join_with_snoc)
qed

lemma serializeTree_paths:
  "clean_names node \<Longrightarrow> \<forall>s\<in>set ancestors. clean_segment s \<Longrightarrow>
   paths_ok ancestors (serializeTree e node tot (join_with (CHR ''/'') ancestors))"
proof (induction e node tot "join_with (CHR ''/'') ancestors" arbitrary: ancestors rule: serializeTree.induct)
  case (1 e node tot)
  have cn: "clean_segment (name node)" using "1.prems"(1) by (cases node) simp
  have cur: "(if join_with (CHR ''/'') ancestors \<noteq> [] then path_join (join_with (CHR ''/'') ancestors) (name node) else name node)
      = join_with (CHR ''/'') (ancestors @ [name node])"
  proof (cases "ancestors = []")
    case True
    then show ?thesis by simp
  next
    case False
    then have "join_with (CHR ''/'') ancestors \<noteq> []"
      using join_with_hd [of ancestors "CHR ''/''"] "1.prems"(2) by (simp add: clean_segment_def)
    then show ?thesis using False "1.prems"(2) cn by (simp add: path_join_clean)
  qed
  have kids: "paths_ok (ancestors @ [name node])
      (serializeTree e child tot (join_with (CHR ''/'') (ancestors @ [name node])))"
    if "child \<in> set (sortChildren node)" for child
  proof -
    have "child \<in> snd ` set (children node)"
      using that by (simp add: sortChildren_def set_array_sort)
    then have "clean_names child"
      using "1.prems"(1) by (cases node) (auto simp: list_all_iff)
    moreover have "\<forall>s\<in>set (ancestors @ [name node]). clean_segment s"
      using "1.prems"(2) cn by simp
    ultimately show ?thesis
      using that cur by (intro "1.hyps") simp_all
  qed
  show ?case
    using cn kids
    by (subst serializeTree.simps) (simp add: Let_def cur list_all_iff clean_segment_def del: join_with.simps)
qed

lemma clean_names_iff: "clean_names t = (clean_segment (name t) \<and> kids_clean (children t))"
  by (cases t) (simp add: kids_clean_def)

lemma kids_clean_update:
  "kids_clean kvs \<Longrightarrow> clean_names v \<Longrightarrow> kids_clean (AList.update k v kvs)"
  by (induction kvs) (auto simp: kids_clean_def)

lemma kids_clean_map_of: "kids_clean kvs \<Longrightarrow> map_of kvs k = Some c \<Longrightarrow> clean_names c"
  by (induction kvs) (auto simp: kids_clean_def split: if_splits)

lemma walk_clean:
  "\<forall>p\<in>set ps. clean_segment p \<Longrightarrow> kids_clean (children t) \<Longrightarrow>
   kids_clean (children (walk sz ps t))"
proof (induction ps arbitrary: t)
  case Nil
  then show ?case by simp
next
  case (Cons p rest)
  have cp: "clean_segment p" and cr: "\<forall>q\<in>set rest. clean_segment q"
    using Cons.prems(1) by simp_all
  show ?case
  proof (cases "map_of (children t) p")
    case None
    let ?node' = "TreeNode p (if rest = [] then sz else js_add 0 sz) [] (rest = [])"
    let ?kids = "children t @ [(p, TreeNode p 0 [] (rest = []))]"
    have "kids_clean (children (walk sz rest ?node'))"
      using cr by (intro Cons.IH) (simp_all add: kids_clean_def)
    then have "clean_names (walk sz rest ?node')"
      using cp by (simp add: clean_names_iff walk_name)
    moreover have "kids_clean ?kids"
      using Cons.prems(2) cp by (simp add: kids_clean_def)
    ultimately have "kids_clean (AList.update p (walk sz rest ?node') ?kids)"
      by (intro kids_clean_update)
    then show ?thesis using None
      by (cases "rest = []") (simp_all add: Let_def map_add_def)
  next
    case (Some c)
    let ?node' = "TreeNode (name c) (if rest = [] then sz else js_add (size_n c) sz) (children c) (isFile c)"
    have cc: "clean_names c" using Cons.prems(2) Some by (rule kids_clean_map_of)
    have "kids_clean (children (walk sz rest ?node'))"
      using cr cc by (intro Cons.IH) (simp_all add: clean_names_iff)
    then have "clean_names (walk sz rest ?node')"
      using cc by (simp add: clean_names_iff walk_name)
    with Cons.prems(2) have "kids_clean (AList.update p (walk sz rest ?node') (children t))"
      by (intro kids_clean_update)
    then show ?thesis using Some by (simp add: Let_def)
  qed
qed

lemma split_sep_pieces: "s \<in> set (split_sep c xs) \<Longrightarrow> c \<notin> set s"
  by (induction xs arbitrary: s) (auto split: list.splits if_splits)

lemma parts_of_clean:
  assumes "''.'' \<notin> set (parts_of f)" "''..'' \<notin> set (parts_of f)"
  shows "\<forall>p\<in>set (parts_of f). clean_segment p"
proof
  fix p assume p: "p \<in> set (parts_of f)"
  then have "p \<noteq> []" and "CHR ''/'' \<notin> set p"
    using split_sep_pieces [of p "CHR ''/''" "path f"] by (auto simp: parts_of_def path_sep_def)
  moreover have "p \<noteq> ''.''" "p \<noteq> ''..''" using p assms by auto
  ultimately show "clean_segment p" by (simp add: clean_segment_def)
qed

lemma insertFile_clean:
  "''.'' \<notin> set (parts_of f) \<Longrightarrow> ''..'' \<notin> set (parts_of f) \<Longrightarrow> kids_clean (children t) \<Longrightarrow>
   kids_clean (children (insertFile t f))"
  unfolding insertFile_def by (intro walk_clean parts_of_clean) simp_all

lemma foldl_insertFile_clean:
  "no_dot_segments fs \<Longrightarrow> kids_clean (children t) \<Longrightarrow> kids_clean (children (foldl insertFile t fs))"
  by (induction fs arbitrary: t) (simp_all add: no_dot_segments_def insertFile_clean)

lemma buildTree_clean: "no_dot_segments files \<Longrightarrow> kids_clean (children (buildTree files))"
  unfolding buildTree_def by (rule foldl_insertFile_clean) (simp_all add: emptyRoot_def kids_clean_def)

lemma buildTree_name: "name (buildTree files) = []"
proof -
  have "name (foldl insertFile t fs) = name t" for t fs
    by (induction fs arbitrary: t) (simp_all add: insertFile_def walk_name)
  then show ?thesis by (simp add: buildTree_def emptyRoot_def)
qed

lemma paths_ok_top: "paths_ok [] r \<Longrightarrow> path_j r = name_j r"
  by (cases r) simp

lemma json_report_entries:
  "report_entries (analyzePackage e files \<lparr>failIfExceedsBytes = c, json = Some True\<rparr>)
     = map (\<lambda>child. serializeTree e child (totalSize_of files) []) (sortChildren (buildTree files))"
  by (simp add: analyzePackage_unfold runAnalyze_def truthy_def Let_def split: option.splits)

text \<open>
  Claim C9, as amended. When no path has a segment \<^verbatim>\<open>.\<close> or \<^verbatim>\<open>..\<close>, every record of the
  serialized document has as its \<^verbatim>\<open>path\<close> the names of its ancestors below the root followed
  by its own name, joined by the separator; a top-level entry's path is its bare name; and
  the root, whose name is empty, is not among the records, all of which have a name.
\<close>

theorem serialized_paths:
  assumes "no_dot_segments files"
  shows "list_all (paths_ok [])
           (report_entries (analyzePackage e files \<lparr>failIfExceedsBytes = c, json = Some True\<rparr>))
         \<and> list_all (\<lambda>r. path_j r = name_j r)
             (report_entries (analyzePackage e files \<lparr>failIfExceedsBytes = c, json = Some True\<rparr>))
         \<and> name (buildTree files) = []"
proof -
  have ok: "paths_ok [] (serializeTree e child (totalSize_of files) [])"
    if "child \<in> set (sortChildren (buildTree files))" for child
  proof -
    have "child \<in> snd ` set (children (buildTree files))"
      using that by (simp add: sortChildren_def set_array_sort)
    then have "clean_names child"
      using buildTree_clean [OF assms] by (auto simp: kids_clean_def list_all_iff)
    then have "paths_ok [] (serializeTree e child (totalSize_of files) (join_with (CHR ''/'') []))"
      by (intro serializeTree_paths) simp_all
    then show ?thesis by simp
  qed
  then show ?thesis
    by (auto simp: json_report_entries list_all_iff buildTree_name dest: paths_ok_top)
qed

theorem serialized_paths_witness:
  "no_dot_segments scenario_files
   \<and> list_all (paths_ok [])
        (report_entries (analyzePackage plain_env scenario_files
           \<lparr>failIfExceedsBytes = None, json = Some True\<rparr>))
   \<and> map path_j (report_entries (analyzePackage plain_env scenario_files
           \<lparr>failIfExceedsBytes = None, json = Some True\<rparr>))
       = [''dist'', ''package.json'', ''LICENSE'', ''README.md'']"
proof -
  have h: "no_dot_segments scenario_files"
    by (simp add: no_dot_segments_def scenario_files_def parts_of_def path_sep_def)
  have "map path_j (report_entries (analyzePackage plain_env scenario_files
           \<lparr>failIfExceedsBytes = None, json = Some True\<rparr>))
       = [''dist'', ''package.json'', ''LICENSE'', ''README.md'']"
    by (simp add: json_report_entries buildTree_scenario sortChildren_def array_sort_def
        compareNodes_def serializeTree_TreeNode)
  with serialized_paths [OF h, of plain_env None] h show ?thesis by simp
qed

lemma pct_whole: "Number_toFixed1 (js_times100 (Num (binary64 1))) = Num 100"
  by code_simp

lemma show_nat_1: "show_nat (Suc 0) = ''1''"
  by (simp add: show_nat.simps digit_of_def)

text \<open>
  Without the restriction the claim fails, because \<^verbatim>\<open>path.join\<close> normalizes: for the single
  file \<^verbatim>\<open>./a\<close> the record of \<^verbatim>\<open>a\<close> below the entry \<^verbatim>\<open>.\<close> has the path \<^verbatim>\<open>a\<close>, not \<^verbatim>\<open>./a\<close>.
\<close>

theorem serialized_paths_counterexample:
  "report_entries (analyzePackage plain_env [\<lparr>path = ''./a'', stats_size = 1\<rparr>]
       \<lparr>failIfExceedsBytes = None, json = Some True\<rparr>)
     = [JsonTreeNode ''.'' ''.'' 1 ''1 B'' (Num 100) False
          [JsonTreeNode ''a'' ''a'' 1 ''1 B'' (Num 100) True []]]
   \<and> join_with (CHR ''/'') [''.'', ''a''] = ''./a''
   \<and> \<not> list_all (paths_ok [])
         (report_entries (analyzePackage plain_env [\<lparr>path = ''./a'', stats_size = 1\<rparr>]
            \<lparr>failIfExceedsBytes = None, json = Some True\<rparr>))"
  by (simp add: json_report_entries totalSize_of_def buildTree_def insertFile_def parts_of_def
      path_sep_def emptyRoot_def sortChildren_def array_sort_def serializeTree_TreeNode
      path_join_def path_normalize_def js_div_def pct_whole plain_env_def show_nat_1 js_add_exact)

section \<open>The report and the threshold gate\<close>

text \<open>
  Claim C3. The threshold gate is strict and total. Without a ceiling the process writes
  nothing but the report and exits with status 0, whatever the total. With a ceiling the
  exit status is 1 exactly when the total is strictly greater than the ceiling, and 0
  otherwise (equality included); in JSON mode the violation is reported on standard error as
  the document \<^verbatim>\<open>{error: "Bundle size exceeds limit", size: total}\<close>, followed by the exit, and
  in the human mode as the red line that names the ceiling.
\<close>

theorem threshold_gate:
  "exit_status (analyzePackage e files \<lparr>failIfExceedsBytes = None, json = j\<rparr>) = 0
   \<and> filter (\<lambda>ev. \<not> is_stdout ev) (analyzePackage e files \<lparr>failIfExceedsBytes = None, json = j\<rparr>) = []
   \<and> exit_status (analyzePackage e files \<lparr>failIfExceedsBytes = Some limit, json = j\<rparr>)
       = (if int (totalSize_of files) > limit then 1 else 0)
   \<and> filter (\<lambda>ev. \<not> is_stdout ev) (analyzePackage e files \<lparr>failIfExceedsBytes = Some limit, json = Some True\<rparr>)
       = (if int (totalSize_of files) > limit
          then [StderrJson \<lparr>error = ''Bundle size exceeds limit'', size_e = totalSize_of files\<rparr>,
                ProcessExit 1]
          else [])
   \<and> filter (\<lambda>ev. \<not> is_stdout ev) (analyzePackage e files \<lparr>failIfExceedsBytes = Some limit, json = None\<rparr>)
       = (if int (totalSize_of files) > limit
          then [StderrLine (pc_red e (cross_mark @ '' Bundle size exceeds '' @ displaySize e limit)),
                ProcessExit 1]
          else [])"
proof -
  have ns: "filter (\<lambda>ev. \<not> is_stdout ev) (fst (runAnalyze e files opts)) = []" for opts
    using runAnalyze_stdout [of e files opts] by (metis filter_False filter_id_conv)
  show ?thesis
    using runAnalyze_no_exit [of e files _ "[]"]
    by (simp add: analyzePackage_unfold runAnalyze_no_exit ns truthy_def)
qed

text \<open>
  Claim C10. The report on standard output does not depend on the ceiling: \<^verbatim>\<open>runAnalyze\<close>
  produces the same report for any two values of \<^verbatim>\<open>failIfExceedsBytes\<close>, absent or present,
  and so does the whole run. The report is complete before anything else happens: the
  events of the run start with the whole report, and what follows, when the ceiling is
  exceeded, is one notice that is not on standard output and the exit with status 1.
\<close>

theorem report_independent_of_ceiling:
  "fst (runAnalyze e files \<lparr>failIfExceedsBytes = c, json = j\<rparr>)
     = fst (runAnalyze e files \<lparr>failIfExceedsBytes = c', json = j\<rparr>)
   \<and> filter is_stdout (analyzePackage e files \<lparr>failIfExceedsBytes = c, json = j\<rparr>)
     = filter is_stdout (analyzePackage e files \<lparr>failIfExceedsBytes = c', json = j\<rparr>)
   \<and> filter is_stdout (analyzePackage e files \<lparr>failIfExceedsBytes = c, json = j\<rparr>)
     = fst (runAnalyze e files \<lparr>failIfExceedsBytes = c, json = j\<rparr>)
   \<and> take (length (fst (runAnalyze e files \<lparr>failIfExceedsBytes = c, json = j\<rparr>)))
        (analyzePackage e files \<lparr>failIfExceedsBytes = c, json = j\<rparr>)
     = fst (runAnalyze e files \<lparr>failIfExceedsBytes = c, json = j\<rparr>)
   \<and> map is_stdout (drop (length (fst (runAnalyze e files \<lparr>failIfExceedsBytes = Some limit, json = j\<rparr>)))
        (analyzePackage e files \<lparr>failIfExceedsBytes = Some limit, json = j\<rparr>))
     = (if int (totalSize_of files) > limit then [False, False] else [])
   \<and> exit_status (drop (length (fst (runAnalyze e files \<lparr>failIfExceedsBytes = Some limit, json = j\<rparr>)))
        (analyzePackage e files \<lparr>failIfExceedsBytes = Some limit, json = j\<rparr>))
     = (if int (totalSize_of files) > limit then 1 else 0)"
proof -
  note r = runAnalyze_ignores_ceiling [of e files c j] runAnalyze_ignores_ceiling [of e files c' j]
    runAnalyze_ignores_ceiling [of e files "Some limit" j]
  have f: "filter is_stdout (analyzePackage e files \<lparr>failIfExceedsBytes = x, json = j\<rparr>)
      = fst (runAnalyze e files \<lparr>failIfExceedsBytes = None, json = j\<rparr>)" for x
    by (simp add: analyzePackage_unfold runAnalyze_stdout split: option.splits)
  have t: "take (length (fst (runAnalyze e files \<lparr>failIfExceedsBytes = c, json = j\<rparr>)))
        (analyzePackage e files \<lparr>failIfExceedsBytes = c, json = j\<rparr>)
     = fst (runAnalyze e files \<lparr>failIfExceedsBytes = c, json = j\<rparr>)"
    by (simp add: analyzePackage_unfold r)
  have d: "drop (length (fst (runAnalyze e files \<lparr>failIfExceedsBytes = Some limit, json = j\<rparr>)))
        (analyzePackage e files \<lparr>failIfExceedsBytes = Some limit, json = j\<rparr>)
     = (if int (totalSize_of files) > limit
        then [if truthy j
              then StderrJson \<lparr>error = ''Bundle size exceeds limit'', size_e = totalSize_of files\<rparr>
              else StderrLine (pc_red e (cross_mark @ '' Bundle size exceeds '' @ displaySize e limit)),
              ProcessExit 1]
        else [])"
    by (simp add: analyzePackage_unfold r)
  show ?thesis
    unfolding d t f by (simp add: r)
qed

text \<open>
  Claim C8. For the empty file list \<^verbatim>\<open>buildTree\<close> returns a root of size 0 without children.
  The list of sorted children is empty, so neither \<^verbatim>\<open>displayTree\<close> nor \<^verbatim>\<open>serializeTree\<close>, the
  only places that divide, is called: the JSON mode writes one document with total 0 and
  an empty entry list, the human mode writes only the line with the total, and the returned
  total is 0.
\<close>

theorem empty_input:
  "buildTree [] = TreeNode [] 0 [] False
   \<and> sortChildren (buildTree []) = []
   \<and> runAnalyze e [] \<lparr>failIfExceedsBytes = c, json = Some True\<rparr>
       = ([StdoutJson \<lparr>totalSizeBytes = 0, totalSize = displaySize e 0, entries = []\<rparr>], 0)
   \<and> runAnalyze e [] \<lparr>failIfExceedsBytes = c, json = Some False\<rparr>
       = ([StdoutLine (''Total unpacked size: '' @ displaySize e 0)], 0)
   \<and> runAnalyze e [] \<lparr>failIfExceedsBytes = c, json = None\<rparr>
       = ([StdoutLine (''Total unpacked size: '' @ displaySize e 0)], 0)"
  by (simp add: runAnalyze_def buildTree_def emptyRoot_def totalSize_of_def
      sortChildren_def array_sort_def truthy_def enumerate_eq_zip)

section \<open>Percentages\<close>

text \<open>
  Claim C7. For the files \<^verbatim>\<open>dist/index.cjs\<close> (6300 bytes), \<^verbatim>\<open>package.json\<close> (1351),
  \<^verbatim>\<open>LICENSE\<close> (1065) and \<^verbatim>\<open>README.md\<close> (511) the total is 9227 bytes, and the first entry of
  the serialized document is the directory \<^verbatim>\<open>dist\<close> with percentage 68.3 (not 68.2); the
  whole document is as stated.
\<close>

theorem scenario_document:
  "totalSize_of scenario_files = 9227
   \<and> fst (runAnalyze e scenario_files \<lparr>failIfExceedsBytes = c, json = Some True\<rparr>)
     = [StdoutJson
          \<lparr>totalSizeBytes = 9227, totalSize = displaySize e 9227,
           entries =
             [JsonTreeNode ''dist'' ''dist'' 6300 (displaySize e 6300) (Num (683 / 10)) False
                [JsonTreeNode ''index.cjs'' ''dist/index.cjs'' 6300 (displaySize e 6300)
                   (Num (683 / 10)) True []],
              JsonTreeNode ''package.json'' ''package.json'' 1351 (displaySize e 1351)
                (Num (146 / 10)) True [],
              JsonTreeNode ''LICENSE'' ''LICENSE'' 1065 (displaySize e 1065) (Num (115 / 10)) True [],
              JsonTreeNode ''README.md'' ''README.md'' 511 (displaySize e 511) (Num (55 / 10)) True []]\<rparr>]
   \<and> Num (683 / 10) \<noteq> Num (682 / 10)"
proof -
  have tot: "totalSize_of scenario_files = 9227"
    by (simp add: totalSize_of_def scenario_files_def js_add_exact)
  show ?thesis
    by (simp add: tot runAnalyze_def truthy_def buildTree_scenario sortChildren_def array_sort_def
        compareNodes_def serializeTree_TreeNode path_join_dist js_div_numeral
        pct_6300 pct_1351 pct_1065 pct_511)
qed

text \<open>
  Claim C5 is not what the renderer does when the total is 0 and the tree is not empty.
  For the single file \<^verbatim>\<open>a\<close> of 0 bytes \<^verbatim>\<open>displayTree\<close> divides 0 by 0 and prints
  \<^verbatim>\<open>(NaN%)\<close>, while \<^verbatim>\<open>serializeTree\<close>, which tests \<^verbatim>\<open>totalSize === 0\<close>, reports 0.
\<close>

theorem renderer_zero_total:
  "analyzePackage e [\<lparr>path = ''a'', stats_size = 0\<rparr>] \<lparr>failIfExceedsBytes = None, json = None\<rparr>
     = [StdoutLine (''Total unpacked size: '' @ displaySize e 0),
        StdoutLine (corner @ '' '' @ pc_cyan e ''a'' @ '' '' @ displaySize e 0 @ '' '' @ pc_gray e ''(NaN%)'')]
   \<and> analyzePackage e [\<lparr>path = ''a'', stats_size = 0\<rparr>] \<lparr>failIfExceedsBytes = None, json = Some True\<rparr>
     = [StdoutJson \<lparr>totalSizeBytes = 0, totalSize = displaySize e 0,
          entries = [JsonTreeNode ''a'' ''a'' 0 (displaySize e 0) (Num 0) True []]\<rparr>]"
  by (simp add: analyzePackage_def runAnalyze_def buildTree_def emptyRoot_def totalSize_of_def
      insertFile_def parts_of_def path_sep_def
      sortChildren_def array_sort_def truthy_def enumerate_eq_zip displayTree_TreeNode serializeTree_TreeNode
      js_div_def js_times100_def toFixed1_def Number_toFixed1_def tenths_0 js_add_exact)

end
